theory Spec2Isabelle
  imports Main "HOL-Library.Word" "HOL-Library.List_Lexorder" "HOL-Library.Sublist"
begin

unbundle bit_operations_syntax

section \<open>Machine types\<close>

text \<open>
  Go's \<open>int64\<close> (also \<open>BackendOffset\<close>, \<open>MessageID\<close> and, on the 64-bit targets of the
  broker, \<open>int\<close>) is a 64-bit word read as two's complement: \<open>+\<close> and \<open>-\<close> wrap, the
  comparisons of the source are the signed ones (\<open><s\<close>, \<open>\<le>s\<close>). \<open>uint64\<close> is the same
  word type read unsigned, so the conversions \<open>int64(x)\<close> and \<open>uint64(x)\<close> are the identity
  on the representation. A \<open>[]byte\<close> and a Go \<open>string\<close> are both lists of bytes.
\<close>

type_synonym byte = "8 word"
type_synonym bytes = "byte list"
type_synonym int64 = "64 word"
type_synonym int32 = "32 word"

datatype error =
    ErrExiting
  | ErrInvalidOffset
  | ErrWriteOffsetMismatch
  | ErrInvalidMessageID
  | ErrInvalidDelayedMessage
  | ErrRawMsgNumber
  | ErrInvalidRawData
  | ErrDecodeMessage
  | ErrSizeMismatch
  | ErrInvalidWriteSize
  | ErrIO
  | ErrBucketKeyNotFound
  | ErrBucketPut
  | ErrInvalidBufferLength
  | ErrEmptyChannelName
  | PanicSliceBounds

section \<open>The segmented log writer (diskQueueWriter)\<close>

text \<open>
  \<open>diskQueueEndInfo\<close> with its embedded \<open>diskQueueOffset\<close> (\<open>FileNum\<close>, \<open>Pos\<close>)
  written flat.
\<close>

record diskQueueEndInfo =
  FileNum :: int64
  Pos :: int64
  virtualEnd :: int64
  totalMsgCnt :: int64

text \<open>
  The writer. \<open>writeFile\<close> records whether the file handle is open (non-nil); the bytes
  of the data files are not part of the model. The outcome of every system call of one
  operation is an input, \<open>io_env\<close>: each field says whether that call succeeds.
\<close>

record diskQueueWriter =
  diskWriteEnd :: diskQueueEndInfo
  diskReadEnd :: diskQueueEndInfo
  diskQueueStart :: diskQueueEndInfo
  maxBytesPerFile :: int64
  minMsgSize :: int32
  maxMsgSize :: int32
  exitFlag :: bool
  needSync :: bool
  writeFile :: bool

record io_env =
  open_ok :: bool
  seek_ok :: bool
  write_ok :: bool
  fsync_ok :: bool
  persist_ok :: bool

text \<open>\<open>diskQueueWriter.sync\<close>: fsync, then \<open>diskReadEnd = diskWriteEnd\<close>, then persist.\<close>

definition sync :: "io_env \<Rightarrow> diskQueueWriter \<Rightarrow> diskQueueWriter \<times> error option" where
  "sync io d =
     (if writeFile d \<and> \<not> fsync_ok io then (d\<lparr>writeFile := False\<rparr>, Some ErrIO)
      else
        let d1 = d\<lparr>diskReadEnd := diskWriteEnd d\<rparr> in
        if \<not> persist_ok io then (d1, Some ErrIO)
        else (d1\<lparr>needSync := False\<rparr>, None))"

text \<open>\<open>truncateDiskQueueToWriteEnd\<close>: the file is truncated and the handle closed.\<close>

definition truncateDiskQueueToWriteEnd :: "diskQueueWriter \<Rightarrow> diskQueueWriter" where
  "truncateDiskQueueToWriteEnd d = d\<lparr>writeFile := False\<rparr>"

text \<open>
  \<open>RollbackWriteV2(offset, diffCnt)\<close>. \<open>diffCnt\<close> is a \<open>uint64\<close>; the source converts it
  with \<open>int64(diffCnt)\<close>, which keeps the bits. The result is the new writer, the returned
  end info and the returned error.
\<close>

definition RollbackWriteV2 ::
  "io_env \<Rightarrow> diskQueueWriter \<Rightarrow> int64 \<Rightarrow> int64 \<Rightarrow> diskQueueWriter \<times> diskQueueEndInfo \<times> error option" where
  "RollbackWriteV2 io d offset diffCnt =
     (if offset <s virtualEnd (diskQueueStart d) \<or>
         totalMsgCnt (diskWriteEnd d) - diffCnt <s totalMsgCnt (diskQueueStart d)
      then (d, diskWriteEnd d, Some ErrInvalidOffset)
      else
        let d1 = (if needSync d then fst (sync io d) else d) in
        if virtualEnd (diskWriteEnd d1) <s offset then (d1, diskWriteEnd d1, Some ErrInvalidOffset)
        else if offset <s virtualEnd (diskWriteEnd d1) - Pos (diskWriteEnd d1)
        then (d1, diskWriteEnd d1, Some ErrInvalidOffset)
        else
          let we = diskWriteEnd d1;
              we' = we\<lparr>Pos := Pos we - (virtualEnd we - offset),
                       virtualEnd := offset,
                       totalMsgCnt := totalMsgCnt we + (- 1) * diffCnt\<rparr>;
              d2 = d1\<lparr>diskWriteEnd := we'\<rparr>;
              d3 = (if Pos we' <s Pos (diskReadEnd d2) \<or> virtualEnd we' <s virtualEnd (diskReadEnd d2)
                    then d2\<lparr>diskReadEnd := we'\<rparr> else d2);
              d4 = truncateDiskQueueToWriteEnd d3
          in (d4, diskWriteEnd d4, None))"

text \<open>\<open>closeCurrentFile\<close>: flush the buffer, move the read end up, close the handle.\<close>

definition closeCurrentFile :: "diskQueueWriter \<Rightarrow> diskQueueWriter" where
  "closeCurrentFile d = d\<lparr>diskReadEnd := diskWriteEnd d, writeFile := False\<rparr>"

lemma sint_nonneg_uint:
  fixes g :: int64
  assumes "\<not> (g <s 0)"
  shows "uint g < 2 ^ 63"
proof -
  have a: "0 \<le> sint g" using assms by (simp add: word_sless_alt)
  have b: "sint g < 2 ^ 63" using sint_lt [of g] by simp
  have "uint g = sint g" using uint_sint[of g] a b by (simp add: take_bit_int_eq_self)
  then show "uint g < 2 ^ 63" using b by simp
qed

lemma dec_measure:
  fixes f :: int64
  assumes "\<not> (f - 1 <s 0)"
  shows "unat f < unat (f + 1)"
proof -
  define g where "g = f - 1"
  have g: "uint g < 2 ^ 63" using assms unfolding g_def by (rule sint_nonneg_uint)
  have f: "f = g + 1" by (simp add: g_def)
  have u1: "uint (g + 1) = uint g + 1"
    using g uint_ge_0[of g] by (simp add: uint_word_ariths take_bit_int_eq_self)
  have u2: "uint (g + 1 + 1) = uint g + 2"
    using g uint_ge_0[of g] by (simp add: uint_word_ariths take_bit_int_eq_self add.assoc)
  have "uint f < uint (f + 1)" unfolding f using u1 u2 by simp
  then have "f < f + 1" by (simp only: word_less_def)
  then show ?thesis by (simp only: word_less_nat_alt)
qed

text \<open>
  The loop of \<open>ResetWriteEndV2\<close> that walks back over earlier files. \<open>fsize n\<close> is the
  size \<open>os.Stat\<close> reports for data file \<open>n\<close>, \<open>None\<close> when the call fails.
\<close>

function reset_loop ::
  "(int64 \<Rightarrow> int64 option) \<Rightarrow> int64 \<Rightarrow> int64 \<Rightarrow> int64 \<Rightarrow> int64 \<Rightarrow> error + (int64 \<times> int64 \<times> int64)" where
  "reset_loop fsize offset newEnd newWriteFileNum newWritePos =
     (if offset <s newEnd - newWritePos
      then (let newEnd' = newEnd - newWritePos; f' = newWriteFileNum - 1
            in if f' <s 0 then Inl ErrInvalidOffset
               else case fsize f' of
                      None \<Rightarrow> Inl ErrIO
                    | Some sz \<Rightarrow> reset_loop fsize offset newEnd' f' sz)
      else Inr (newEnd, newWriteFileNum, newWritePos))"
  by pat_completeness auto
termination
  by (relation "measure (\<lambda>(fsize, offset, newEnd, fnum, pos). unat (fnum + 1))")
     (auto simp: dec_measure)

definition ResetWriteEndV2 ::
  "io_env \<Rightarrow> (int64 \<Rightarrow> int64 option) \<Rightarrow> diskQueueWriter \<Rightarrow> int64 \<Rightarrow> int64 \<Rightarrow>
   diskQueueWriter \<times> diskQueueEndInfo \<times> error option" where
  "ResetWriteEndV2 io fsize d offset totalCnt =
     (if offset <s virtualEnd (diskQueueStart d) \<or> totalCnt <s totalMsgCnt (diskQueueStart d)
      then (d, diskWriteEnd d, Some ErrInvalidOffset)
      else if virtualEnd (diskWriteEnd d) <s offset then (d, diskWriteEnd d, Some ErrInvalidOffset)
      else
        let d1 = (if needSync d then fst (sync io d) else d) in
        if offset = 0
        then (let d2 = closeCurrentFile d1;
                  d3 = d2\<lparr>diskWriteEnd := diskQueueStart d2, diskReadEnd := diskQueueStart d2\<rparr>;
                  d4 = truncateDiskQueueToWriteEnd d3
              in (d4, diskWriteEnd d4, None))
        else
          case reset_loop fsize offset (virtualEnd (diskWriteEnd d1)) (FileNum (diskWriteEnd d1))
                 (Pos (diskWriteEnd d1)) of
            Inl e \<Rightarrow> (d1, diskWriteEnd d1, Some e)
          | Inr (newEnd, newWriteFileNum, newWritePos) \<Rightarrow>
              let we' = (diskWriteEnd d1)\<lparr>FileNum := newWriteFileNum,
                          Pos := newWritePos - (newEnd - offset),
                          virtualEnd := offset,
                          totalMsgCnt := totalCnt\<rparr>;
                  d2 = closeCurrentFile (d1\<lparr>diskWriteEnd := we', diskReadEnd := we'\<rparr>);
                  d3 = truncateDiskQueueToWriteEnd d2
              in (d3, diskWriteEnd d3, None))"

text \<open>
  \<open>writeOne\<close>: \<open>dlen\<close> is \<open>len(data)\<close>. The size written, the offsets and the message
  count move as in the source; the file rolls over when the position reaches
  \<open>maxBytesPerFile\<close>, and the error of that \<open>sync\<close> is returned with the results.
\<close>

definition writeOne ::
  "io_env \<Rightarrow> diskQueueWriter \<Rightarrow> nat \<Rightarrow> bool \<Rightarrow> int32 \<Rightarrow>
   diskQueueWriter \<times> int64 \<times> int32 \<times> diskQueueEndInfo option \<times> error option" where
  "writeOne io d dlen isRaw msgCnt =
     (if \<not> writeFile d \<and> \<not> open_ok io then (d, 0, 0, None, Some ErrIO)
      else if \<not> writeFile d \<and> 0 <s Pos (diskWriteEnd d) \<and> \<not> seek_ok io
      then (d\<lparr>writeFile := False\<rparr>, 0, 0, None, Some ErrIO)
      else
        let d0 = d\<lparr>writeFile := True\<rparr>;
            dataLen = (of_nat dlen :: int32)
        in if \<not> isRaw \<and> (dataLen <s minMsgSize d \<or> maxMsgSize d <s dataLen)
           then (d0, 0, 0, None, Some ErrInvalidWriteSize)
           else if \<not> write_ok io
           then ((fst (sync io d0))\<lparr>writeFile := False\<rparr>, 0, 0, None, Some ErrIO)
           else
             let we = diskWriteEnd d0;
                 writeOffset = virtualEnd we;
                 totalBytes = (scast dataLen :: int64) + (if isRaw then 0 else 4);
                 we' = we\<lparr>Pos := Pos we + totalBytes,
                          virtualEnd := virtualEnd we + totalBytes,
                          totalMsgCnt := totalMsgCnt we + (if isRaw then scast msgCnt else 1)\<rparr>;
                 d1 = d0\<lparr>diskWriteEnd := we'\<rparr>
             in if maxBytesPerFile d1 \<le>s Pos we'
                then (let (d2, err) = sync io d1;
                          we2 = (diskWriteEnd d2)\<lparr>FileNum := FileNum (diskWriteEnd d2) + 1, Pos := 0\<rparr>;
                          d3 = d2\<lparr>writeFile := False, diskWriteEnd := we2, diskReadEnd := we2\<rparr>
                      in (d3, writeOffset, ucast totalBytes, Some we2, err))
                else (d1, writeOffset, ucast totalBytes, Some we', None))"

definition zeroEndInfo :: diskQueueEndInfo where
  "zeroEndInfo = \<lparr>FileNum = 0, Pos = 0, virtualEnd = 0, totalMsgCnt = 0\<rparr>"

definition PutV2 ::
  "io_env \<Rightarrow> diskQueueWriter \<Rightarrow> nat \<Rightarrow> diskQueueWriter \<times> int64 \<times> int32 \<times> diskQueueEndInfo \<times> error option" where
  "PutV2 io d dlen =
     (if exitFlag d then (d, 0, 0, zeroEndInfo, Some ErrExiting)
      else case writeOne io d dlen False 0 of
             (d', offset, writeBytes, dend, werr) \<Rightarrow>
               (d'\<lparr>needSync := True\<rparr>, offset, writeBytes,
                (case dend of None \<Rightarrow> zeroEndInfo | Some e \<Rightarrow> e), werr))"

definition PutRawV2 ::
  "io_env \<Rightarrow> diskQueueWriter \<Rightarrow> nat \<Rightarrow> int32 \<Rightarrow>
   diskQueueWriter \<times> int64 \<times> int32 \<times> diskQueueEndInfo \<times> error option" where
  "PutRawV2 io d dlen msgCnt =
     (if exitFlag d then (d, 0, 0, zeroEndInfo, Some ErrExiting)
      else case writeOne io d dlen True msgCnt of
             (d', offset, writeBytes, dend, werr) \<Rightarrow>
               (d'\<lparr>needSync := True\<rparr>, offset, writeBytes,
                (case dend of None \<Rightarrow> zeroEndInfo | Some e \<Rightarrow> e), werr))"

definition Flush :: "io_env \<Rightarrow> diskQueueWriter \<Rightarrow> diskQueueWriter \<times> error option" where
  "Flush io d =
     (if exitFlag d then (d, Some ErrExiting)
      else if needSync d then sync io d
      else (d, None))"

section \<open>Byte encodings\<close>

text \<open>
  \<open>binary.BigEndian\<close>: an unsigned value in a fixed number of bytes, most significant
  first. \<open>be_val\<close> reads such a sequence back.
\<close>

fun be_bytes :: "nat \<Rightarrow> nat \<Rightarrow> bytes" where
  "be_bytes 0 v = []"
| "be_bytes (Suc n) v = be_bytes n (v div 256) @ [of_nat (v mod 256)]"

definition be_val :: "bytes \<Rightarrow> nat" where
  "be_val b = foldl (\<lambda>a x. a * 256 + unat x) 0 b"

definition PutUint16 :: "16 word \<Rightarrow> bytes" where
  "PutUint16 w = be_bytes 2 (unat w)"

definition PutUint64 :: "int64 \<Rightarrow> bytes" where
  "PutUint64 w = be_bytes 8 (unat w)"

text \<open>\<open>Uint16(b)\<close> and \<open>Uint64(b)\<close> read the first 2 and 8 bytes of \<open>b\<close>.\<close>

definition Uint16 :: "bytes \<Rightarrow> 16 word" where
  "Uint16 b = of_nat (be_val (take 2 b))"

definition Uint64 :: "bytes \<Rightarrow> int64" where
  "Uint64 b = of_nat (be_val (take 8 b))"

text \<open>\<open>strconv.Itoa\<close>: the decimal digits of a signed integer, in ASCII.\<close>

fun digits :: "nat \<Rightarrow> nat \<Rightarrow> bytes" where
  "digits 0 n = []"
| "digits (Suc f) n = (if n < 10 then [of_nat (48 + n)] else digits f (n div 10) @ [of_nat (48 + n mod 10)])"

definition Itoa :: "int64 \<Rightarrow> bytes" where
  "Itoa x = (if x <s 0 then 45 # digits 20 (nat (- sint x)) else digits 20 (nat (sint x)))"

section \<open>Messages and index keys\<close>

text \<open>
  The fields of \<open>Message\<close> that the delayed queue reads or stores. \<open>TraceID\<close> is a
  \<open>uint64\<close>, \<open>DelayedType\<close> an \<open>int32\<close>, \<open>DelayedChannel\<close> a string.
\<close>

record Message =
  ID :: int64
  TraceID :: int64
  Body :: bytes
  Timestamp :: int64
  DelayedType :: int32
  DelayedTs :: int64
  DelayedOrigID :: int64
  DelayedChannel :: bytes

text \<open>The delayed types: \<open>ChannelDelayed = 1\<close>, \<open>PubDelayed = 2\<close>, \<open>TransactionDelayed = 3\<close>.\<close>

definition IsValidDelayedMessage :: "Message \<Rightarrow> bool" where
  "IsValidDelayedMessage m =
     (if DelayedType m = 1
      then 0 <s DelayedOrigID m \<and> 0 < length (DelayedChannel m) \<and> 0 <s DelayedTs m
      else if DelayedType m = 2 then 0 <s DelayedTs m
      else if DelayedType m = 3 then True
      else False)"

text \<open>\<open>dt\<close> is a Go \<open>int\<close>; \<open>uint16(dt)\<close> and \<open>uint16(len(ch))\<close> keep the low 16 bits.\<close>

definition getDelayedMsgDBPrefixKey :: "int64 \<Rightarrow> bytes \<Rightarrow> bytes" where
  "getDelayedMsgDBPrefixKey dt ch =
     PutUint16 (ucast dt) @ [45] @ PutUint16 (of_nat (length ch)) @ ch"

definition getDelayedMsgDBKey :: "int64 \<Rightarrow> bytes \<Rightarrow> int64 \<Rightarrow> int64 \<Rightarrow> bytes" where
  "getDelayedMsgDBKey dt ch ts ident =
     PutUint16 (ucast dt) @ [45] @ PutUint16 (of_nat (length ch)) @ ch @
     PutUint64 ts @ PutUint64 ident"

definition getDelayedMsgDBIndexKey :: "int64 \<Rightarrow> bytes \<Rightarrow> int64 \<Rightarrow> bytes" where
  "getDelayedMsgDBIndexKey dt ch ident =
     PutUint16 (ucast dt) @ [45] @ PutUint16 (of_nat (length ch)) @ ch @ PutUint64 ident"

definition getDelayedMsgDBIndexValue :: "int64 \<Rightarrow> int64 \<Rightarrow> bytes" where
  "getDelayedMsgDBIndexValue ts ident = [1] @ PutUint64 ts @ PutUint64 ident"

text \<open>
  \<open>decodeDelayedMsgDBKey\<close>. The two length checks are the source's; the slices
  \<open>b[pos:pos+8]\<close> that follow them panic when the buffer is shorter than they reach
  (the buffer's capacity taken to be its length).
\<close>

definition decodeDelayedMsgDBKey :: "bytes \<Rightarrow> error + (16 word \<times> int64 \<times> int64 \<times> bytes)" where
  "decodeDelayedMsgDBKey b =
     (if length b < 2 + 1 + 2 + 8 + 8 then Inl ErrInvalidBufferLength
      else
        let dt = Uint16 (take 2 b);
            chLen = unat (Uint16 (take 2 (drop 3 b)));
            pos = 5
        in if length b < pos + chLen then Inl ErrInvalidBufferLength
           else
             let ch = take chLen (drop pos b);
                 pos1 = pos + chLen
             in if length b < pos1 + 16 then Inl PanicSliceBounds
                else Inr (dt, Uint64 (take 8 (drop pos1 b)),
                          Uint64 (take 8 (drop (pos1 + 8) b)), ch))"

section \<open>The ordered index store\<close>

text \<open>
  A bucket of the embedded store is a list of key/value pairs in strictly ascending key
  order; keys compare as \<open>bytes.Compare\<close> does (lexicographically, a proper prefix
  first). \<open>Get\<close> returns \<open>None\<close> for \<open>nil\<close>. The store's own limits on key and value
  sizes are not modelled: \<open>Put\<close> and \<open>Delete\<close> on a bucket always succeed.
\<close>

type_synonym 'v bucket = "(bytes \<times> 'v) list"

definition bget :: "'v bucket \<Rightarrow> bytes \<Rightarrow> 'v option" where
  "bget b k = map_of b k"

fun bput :: "bytes \<Rightarrow> 'v \<Rightarrow> 'v bucket \<Rightarrow> 'v bucket" where
  "bput k v [] = [(k, v)]"
| "bput k v ((k', v') # xs) =
     (if k < k' then (k, v) # (k', v') # xs
      else if k = k' then (k, v) # xs
      else (k', v') # bput k v xs)"

definition bdelete :: "bytes \<Rightarrow> 'v bucket \<Rightarrow> 'v bucket" where
  "bdelete k b = filter (\<lambda>kv. fst kv \<noteq> k) b"

text \<open>\<open>Cursor.Seek(prefix)\<close>: the entries from the first key not below \<open>prefix\<close> on.\<close>

definition seek :: "bytes \<Rightarrow> 'v bucket \<Rightarrow> 'v bucket" where
  "seek p b = dropWhile (\<lambda>kv. fst kv < p) b"

text \<open>
  Modelled from the spec: \<open>Message.WriteDelayedTo\<close> and \<open>DecodeDelayedMessage\<close> are not
  among the sources. A value of the \<open>delayed_message\<close> bucket is the wire encoding of a
  message; it is represented by the message it encodes, so that decoding a stored value
  returns the message that was encoded and two encodings are byte-equal exactly when the
  messages are equal. The size of an encoding and the decoding of raw replica bytes are
  parameters, \<open>codec\<close>.
\<close>

record codec =
  WriteDelayedTo_size :: "Message \<Rightarrow> nat"
  DecodeDelayedMessage :: "bytes \<Rightarrow> Message option"

record kvstore =
  delayed_message :: "Message bucket"
  delayed_message_index :: "bytes bucket"
  meta :: "bytes bucket"

text \<open>The keys \<open>"synced_offset"\<close> and \<open>"counter_"\<close>, in ASCII.\<close>

definition syncedOffsetKey :: bytes where
  "syncedOffsetKey = [115, 121, 110, 99, 101, 100, 95, 111, 102, 102, 115, 101, 116]"

definition counter_prefix :: bytes where
  "counter_prefix = [99, 111, 117, 110, 116, 101, 114, 95]"

definition deleteMsgIndex :: "Message \<Rightarrow> kvstore \<Rightarrow> kvstore" where
  "deleteMsgIndex m tx =
     tx\<lparr>delayed_message_index :=
          bdelete (getDelayedMsgDBIndexKey (scast (DelayedType m)) (DelayedChannel m) (DelayedOrigID m))
                  (delayed_message_index tx)\<rparr>"

text \<open>The counter cell as the source reads it: 0 unless the value has 8 bytes.\<close>

definition read_counter :: "bytes bucket \<Rightarrow> bytes \<Rightarrow> int64" where
  "read_counter b cntKey =
     (case bget b cntKey of
        None \<Rightarrow> 0
      | Some cntBytes \<Rightarrow> if length cntBytes = 8 then Uint64 cntBytes else 0)"

text \<open>
  \<open>deleteBucketKey\<close>. Its \<open>Put\<close> rewrites a counter cell that is there (the count read
  from it is not 0) with a value of the same 8 bytes, and is taken to be accepted.
\<close>

definition deleteBucketKey ::
  "int64 \<Rightarrow> bytes \<Rightarrow> int64 \<Rightarrow> int64 \<Rightarrow> kvstore \<Rightarrow> kvstore \<times> error option" where
  "deleteBucketKey dt ch ts ident tx =
     (let msgKey = getDelayedMsgDBKey dt ch ts ident;
          oldV = bget (delayed_message tx) msgKey;
          tx1 = tx\<lparr>delayed_message := bdelete msgKey (delayed_message tx)\<rparr>
      in case oldV of
           Some old \<Rightarrow>
             let tx2 = deleteMsgIndex old tx1;
                 cntKey = counter_prefix @ getDelayedMsgDBPrefixKey dt ch;
                 cnt = read_counter (meta tx2) cntKey
             in if cnt \<noteq> 0
                then (tx2\<lparr>meta := bput cntKey (PutUint64 (cnt - 1)) (meta tx2)\<rparr>, None)
                else (tx2, None)
         | None \<Rightarrow> (tx1, Some ErrBucketKeyNotFound))"

text \<open>
  \<open>DB.Update\<close>: the transaction commits when the function returns no error and is rolled
  back when it returns one.
\<close>

definition Update :: "(kvstore \<Rightarrow> kvstore \<times> error option) \<Rightarrow> kvstore \<Rightarrow> kvstore \<times> error option" where
  "Update f db = (case f db of (tx, None) \<Rightarrow> (tx, None) | (tx, Some e) \<Rightarrow> (db, Some e))"

section \<open>The delay queue\<close>

text \<open>
  The fields of \<open>DelayQueue\<close> that its operations read or write. The locks are not
  modelled: every operation below runs alone. What one call takes from outside the
  engine is its \<open>call_env\<close>: the outcomes of the system calls of the append, of the
  flush and of a reset of the log, the sizes of the data files, and the identifier the
  injected generator \<open>msgIDCursor\<close> returns (\<open>None\<close> when there is no generator and the
  engine's own counter is used), and which keys \<open>Bucket.Put\<close> accepts. \<open>Bucket.Put\<close> is a
  function of the store library, which is not among the sources; it returns an error
  for a key it refuses (one that is too long, for instance), and \<open>put\<close> returns that
  error. Whether it accepts a key is the parameter \<open>kv_put_ok\<close>, and its error is
  \<open>ErrBucketPut\<close>.
\<close>

record DelayQueue =
  backend :: diskQueueWriter
  q_exitFlag :: bool
  defaultIDSeq :: int64
  needFlush :: bool
  kvStore :: kvstore
  SyncEvery :: int64
  lastSyncCnt :: int64
  oldestChannelDelayedTs :: "bytes \<Rightarrow> int64 option"

record call_env =
  io_put :: io_env
  io_flush :: io_env
  io_reset :: io_env
  file_size :: "int64 \<Rightarrow> int64 option"
  cursor_id :: "int64 option"
  kv_put_ok :: "bytes \<Rightarrow> bool"

definition nextMsgID :: "call_env \<Rightarrow> DelayQueue \<Rightarrow> DelayQueue \<times> int64" where
  "nextMsgID env q =
     (case cursor_id env of
        Some i \<Rightarrow> (q, i)
      | None \<Rightarrow> (q\<lparr>defaultIDSeq := defaultIDSeq q + 1\<rparr>, defaultIDSeq q + 1))"

definition ResetBackendEndNoLock :: "call_env \<Rightarrow> DelayQueue \<Rightarrow> int64 \<Rightarrow> int64 \<Rightarrow> DelayQueue \<times> error option" where
  "ResetBackendEndNoLock env q vend totalCnt =
     (let old = diskWriteEnd (backend q) in
      if virtualEnd old = vend \<and> totalMsgCnt old = totalCnt then (q, None)
      else case ResetWriteEndV2 (io_reset env) (file_size env) (backend q) vend totalCnt of
             (b', _, err) \<Rightarrow> (q\<lparr>backend := b', needFlush := True\<rparr>, err))"

definition flush :: "call_env \<Rightarrow> DelayQueue \<Rightarrow> DelayQueue \<times> error option" where
  "flush env q =
     (if \<not> needFlush q then (q, None)
      else
        let q1 = q\<lparr>needFlush := False, lastSyncCnt := totalMsgCnt (diskWriteEnd (backend q))\<rparr>
        in case Flush (io_flush env) (backend q1) of
             (b', err) \<Rightarrow> (q1\<lparr>backend := b'\<rparr>, err))"

definition writeDelayedMessageToBackendWithCheck ::
  "codec \<Rightarrow> io_env \<Rightarrow> Message \<Rightarrow> int64 \<Rightarrow> diskQueueWriter \<Rightarrow>
   diskQueueWriter \<times> int64 \<times> int32 \<times> diskQueueEndInfo \<times> error option" where
  "writeDelayedMessageToBackendWithCheck cd io msg checkSize bq =
     (let wsize = (of_nat (WriteDelayedTo_size cd msg) :: int64) in
      if 0 <s checkSize \<and> checkSize \<noteq> wsize + 4 then (bq, 0, 0, zeroEndInfo, Some ErrSizeMismatch)
      else PutV2 io bq (WriteDelayedTo_size cd msg))"

text \<open>
  The function \<open>put\<close> passes to \<open>Update\<close>: the writes of one put to the three buckets.
  \<open>put_ok\<close> says which keys \<open>Bucket.Put\<close> accepts; the function returns at the first
  \<open>Put\<close> that is refused.
\<close>

definition put_tx :: "(bytes \<Rightarrow> bool) \<Rightarrow> Message \<Rightarrow> int64 \<Rightarrow> kvstore \<Rightarrow> kvstore \<times> error option" where
  "put_tx put_ok m dendOffset tx =
     (let msgKey = getDelayedMsgDBKey (scast (DelayedType m)) (DelayedChannel m) (DelayedTs m) (ID m);
          oldV = bget (delayed_message tx) msgKey;
          exists = (oldV \<noteq> None)
      in case (if oldV = Some m then (tx, None)
               else if \<not> put_ok msgKey then (tx, Some ErrBucketPut)
               else
                 let txa = tx\<lparr>delayed_message := bput msgKey m (delayed_message tx)\<rparr>;
                     txb = (case oldV of Some old \<Rightarrow> deleteMsgIndex old txa | None \<Rightarrow> txa);
                     newIndexKey = getDelayedMsgDBIndexKey (scast (DelayedType m)) (DelayedChannel m)
                                     (DelayedOrigID m);
                     d = getDelayedMsgDBIndexValue (DelayedTs m) (DelayedOrigID m)
                 in if \<not> put_ok newIndexKey then (txb, Some ErrBucketPut)
                    else (txb\<lparr>delayed_message_index := bput newIndexKey d (delayed_message_index txb)\<rparr>,
                          None)) of
           (tx1, Some e) \<Rightarrow> (tx1, Some e)
         | (tx1, None) \<Rightarrow>
             (case (if \<not> exists
                    then
                      let cntKey = counter_prefix @
                                   getDelayedMsgDBPrefixKey (scast (DelayedType m)) (DelayedChannel m);
                          cnt = read_counter (meta tx1) cntKey
                      in if \<not> put_ok cntKey then (tx1, Some ErrBucketPut)
                         else (tx1\<lparr>meta := bput cntKey (PutUint64 (cnt + 1)) (meta tx1)\<rparr>, None)
                    else (tx1, None)) of
                (tx2, Some e) \<Rightarrow> (tx2, Some e)
              | (tx2, None) \<Rightarrow>
                  if \<not> put_ok syncedOffsetKey then (tx2, Some ErrBucketPut)
                  else (tx2\<lparr>meta := bput syncedOffsetKey (Itoa dendOffset) (meta tx2)\<rparr>, None)))"

text \<open>The part of \<open>put\<close> after the append to the log has succeeded.\<close>

definition put_store ::
  "call_env \<Rightarrow> DelayQueue \<Rightarrow> Message \<Rightarrow> int64 \<Rightarrow> int32 \<Rightarrow> diskQueueEndInfo \<Rightarrow>
   DelayQueue \<times> int64 \<times> int64 \<times> int32 \<times> diskQueueEndInfo \<times> error option" where
  "put_store env q m offset writeBytes dend =
     (case Update (put_tx (kv_put_ok env) m (virtualEnd dend)) (kvStore q) of
        (kv, Some e) \<Rightarrow> (q, ID m, offset, writeBytes, dend, Some e)
      | (kv, None) \<Rightarrow>
          let q1 = q\<lparr>kvStore := kv\<rparr>;
              q2 = (if DelayedType m = 1
                    then (case oldestChannelDelayedTs q1 (DelayedChannel m) of
                            None \<Rightarrow> q1\<lparr>oldestChannelDelayedTs :=
                                         (oldestChannelDelayedTs q1)(DelayedChannel m \<mapsto> DelayedTs m)\<rparr>
                          | Some oldest \<Rightarrow>
                              if oldest = 0 \<or> DelayedTs m <s oldest
                              then q1\<lparr>oldestChannelDelayedTs :=
                                        (oldestChannelDelayedTs q1)(DelayedChannel m \<mapsto> DelayedTs m)\<rparr>
                              else q1)
                    else q1);
              q3 = (if SyncEvery q2 = 1 \<or> SyncEvery q2 \<le>s totalMsgCnt dend - lastSyncCnt q2
                    then fst (flush env q2) else q2)
          in (q3, ID m, offset, writeBytes, dend, None))"

text \<open>
  \<open>put(m, rawData, trace, checkSize)\<close>; \<open>rawData = nil\<close> is \<open>None\<close>. Tracing writes no
  state. The result is the engine, the identifier, the offset, the bytes written, the
  end of the log and the error. On the raw path the source declares a second \<open>err\<close>
  inside the \<open>if rawData != nil\<close> block (\<open>_, err := m.WriteDelayedTo(...)\<close>) and assigns
  the result of \<open>PutRawV2\<close> to it; the \<open>err\<close> tested after the block is the outer one,
  which is \<open>nil\<close> there. So the error of \<open>PutRawV2\<close> is returned only by the size check
  inside the block, and the store is written whatever \<open>PutRawV2\<close> returned.
\<close>

definition put ::
  "codec \<Rightarrow> call_env \<Rightarrow> DelayQueue \<Rightarrow> Message \<Rightarrow> bytes option \<Rightarrow> int64 \<Rightarrow>
   DelayQueue \<times> int64 \<times> int64 \<times> int32 \<times> diskQueueEndInfo \<times> error option" where
  "put cd env q m0 rawData checkSize =
     (case (case rawData of
              None \<Rightarrow> Inr m0
            | Some raw \<Rightarrow>
                if length raw < 4 then Inl ErrInvalidRawData
                else (case DecodeDelayedMessage cd (drop 4 raw) of
                        None \<Rightarrow> Inl ErrDecodeMessage
                      | Some dm \<Rightarrow> Inr dm)) of
        Inl e \<Rightarrow> (q, 0, 0, 0, zeroEndInfo, Some e)
      | Inr m1 \<Rightarrow>
          let (qa, m) = (if ID m1 \<le>s 0
                         then (case nextMsgID env q of (q', i) \<Rightarrow> (q', m1\<lparr>ID := i\<rparr>))
                         else (q, m1))
          in case rawData of
               Some raw \<Rightarrow>
                 (case PutRawV2 (io_put env) (backend qa) (length raw) 1 of
                    (b', offset, writeBytes, dend, err) \<Rightarrow>
                      let qb = qa\<lparr>backend := b'\<rparr> in
                      if 0 <s checkSize \<and> checkSize \<noteq> scast writeBytes
                      then (qb, 0, 0, 0, dend, err)
                      else put_store env (qb\<lparr>needFlush := True\<rparr>) m offset writeBytes dend)
             | None \<Rightarrow>
                 (case writeDelayedMessageToBackendWithCheck cd (io_put env) m checkSize (backend qa) of
                    (b', offset, writeBytes, dend, err) \<Rightarrow>
                      let qc = qa\<lparr>backend := b', needFlush := True\<rparr> in
                      (case err of
                         Some e \<Rightarrow> (qc, ID m, offset, writeBytes, dend, Some e)
                       | None \<Rightarrow> put_store env qc m offset writeBytes dend)))"

definition PutDelayMessage ::
  "codec \<Rightarrow> call_env \<Rightarrow> DelayQueue \<Rightarrow> Message \<Rightarrow>
   DelayQueue \<times> int64 \<times> int64 \<times> int32 \<times> diskQueueEndInfo option \<times> error option" where
  "PutDelayMessage cd env q m =
     (if q_exitFlag q then (q, 0, 0, 0, None, Some ErrExiting)
      else if 0 <s ID m then (q, 0, 0, 0, None, Some ErrInvalidMessageID)
      else if \<not> IsValidDelayedMessage m then (q, 0, 0, 0, None, Some ErrInvalidDelayedMessage)
      else case put cd env q m None 0 of
             (q', ident, offset, writeBytes, dend, err) \<Rightarrow>
               (q', ident, offset, writeBytes, Some dend, err))"

text \<open>
  \<open>PutRawDataOnReplica\<close>: \<open>rawData\<close> is a slice, \<open>None\<close> when it is \<open>nil\<close>; \<open>put\<close> gets it with the
  zero \<open>Message\<close>.
\<close>

definition PutRawDataOnReplica ::
  "codec \<Rightarrow> call_env \<Rightarrow> DelayQueue \<Rightarrow> bytes option \<Rightarrow> int64 \<Rightarrow> int64 \<Rightarrow> int32 \<Rightarrow>
   DelayQueue \<times> diskQueueEndInfo option \<times> error option" where
  "PutRawDataOnReplica cd env q rawData offset checkSize msgNum =
     (if q_exitFlag q then (q, None, Some ErrExiting)
      else
        let wend = diskWriteEnd (backend q) in
        if virtualEnd wend \<noteq> offset then (q, None, Some ErrWriteOffsetMismatch)
        else if msgNum \<noteq> 1 then (q, None, Some ErrRawMsgNumber)
        else case put cd env q \<lparr>ID = 0, TraceID = 0, Body = [], Timestamp = 0, DelayedType = 0,
                                 DelayedTs = 0, DelayedOrigID = 0, DelayedChannel = []\<rparr>
                    rawData checkSize of
               (q', _, _, _, dend, Some e) \<Rightarrow>
                 (fst (ResetBackendEndNoLock env q' (virtualEnd wend) (totalMsgCnt wend)), None, Some e)
             | (q', _, _, _, dend, None) \<Rightarrow> (q', Some dend, None))"

definition PutMessageOnReplica ::
  "codec \<Rightarrow> call_env \<Rightarrow> DelayQueue \<Rightarrow> Message \<Rightarrow> int64 \<Rightarrow> int64 \<Rightarrow>
   DelayQueue \<times> diskQueueEndInfo option \<times> error option" where
  "PutMessageOnReplica cd env q m offset checkSize =
     (if q_exitFlag q then (q, None, Some ErrExiting)
      else
        let wend = diskWriteEnd (backend q) in
        if virtualEnd wend \<noteq> offset then (q, None, Some ErrWriteOffsetMismatch)
        else if \<not> IsValidDelayedMessage m then (q, None, Some ErrInvalidDelayedMessage)
        else case put cd env q m None checkSize of
               (q', _, _, _, dend, Some e) \<Rightarrow>
                 (fst (ResetBackendEndNoLock env q' (virtualEnd wend) (totalMsgCnt wend)), None, Some e)
             | (q', _, _, _, dend, None) \<Rightarrow> (q', Some dend, None))"

definition ConfirmedMessage :: "DelayQueue \<Rightarrow> Message \<Rightarrow> DelayQueue \<times> error option" where
  "ConfirmedMessage q msg =
     (case Update (deleteBucketKey (scast (DelayedType msg)) (DelayedChannel msg) (DelayedTs msg)
                     (DelayedOrigID msg)) (kvStore q) of
        (kv, err) \<Rightarrow> (q\<lparr>kvStore := kv\<rparr>, err))"

definition GetCurrentDelayedCnt :: "DelayQueue \<Rightarrow> int64 \<Rightarrow> bytes \<Rightarrow> error + int64" where
  "GetCurrentDelayedCnt q dt channel =
     (case bget (meta (kvStore q)) (counter_prefix @ getDelayedMsgDBPrefixKey dt channel) of
        None \<Rightarrow> Inr 0
      | Some cntBytes \<Rightarrow> if length cntBytes < 8 then Inl PanicSliceBounds else Inr (Uint64 cntBytes))"

subsection \<open>Emptying\<close>

text \<open>
  The cursor loop of one transaction of \<open>emptyDelayedUntil\<close>, over the entries the cursor
  visits (those from \<open>Seek(prefix)\<close> on, in key order). \<open>txMaxBatch\<close> is a package
  variable of the source (10000). The state of the loop is the transaction and
  \<open>batched\<close>; the third component of the result is the error the function returns.
\<close>

fun until_loop ::
  "int \<Rightarrow> int64 \<Rightarrow> int64 \<Rightarrow> int64 \<Rightarrow> bytes \<Rightarrow> bytes \<Rightarrow> Message bucket \<Rightarrow> kvstore \<Rightarrow> int \<Rightarrow>
   kvstore \<times> int \<times> error option" where
  "until_loop txMaxBatch dt peekTs ident ch pfx [] tx batched = (tx, batched, None)"
| "until_loop txMaxBatch dt peekTs ident ch pfx ((k, v) # rest) tx batched =
     (if \<not> prefix pfx k then (tx, batched, None)
      else if txMaxBatch < batched then (tx, batched, None)
      else case decodeDelayedMsgDBKey k of
             Inl e \<Rightarrow>
               if e = PanicSliceBounds then (tx, batched, Some e)
               else until_loop txMaxBatch dt peekTs ident ch pfx rest tx batched
           | Inr (_, delayedTs, delayedID, delayedCh) \<Rightarrow>
               if peekTs <s delayedTs then (tx, batched, None)
               else if delayedTs = peekTs \<and> ident \<le>s delayedID then (tx, batched, None)
               else if delayedCh \<noteq> ch
               then until_loop txMaxBatch dt peekTs ident ch pfx rest tx batched
               else case deleteBucketKey dt ch delayedTs delayedID tx of
                      (tx', Some e) \<Rightarrow>
                        if e \<noteq> ErrBucketKeyNotFound then (tx', batched, Some e)
                        else until_loop txMaxBatch dt peekTs ident ch pfx rest tx' (batched + 1)
                    | (tx', None) \<Rightarrow>
                        until_loop txMaxBatch dt peekTs ident ch pfx rest tx' (batched + 1))"

text \<open>One pass of the outer loop: a transaction, with \<open>batched\<close> starting at 0.\<close>

definition until_pass ::
  "int \<Rightarrow> int64 \<Rightarrow> int64 \<Rightarrow> int64 \<Rightarrow> bytes \<Rightarrow> kvstore \<Rightarrow> kvstore \<times> int \<times> error option" where
  "until_pass txMaxBatch dt peekTs ident ch db =
     (let pfx = getDelayedMsgDBPrefixKey dt ch in
      case until_loop txMaxBatch dt peekTs ident ch pfx (seek pfx (delayed_message db)) db 0 of
        (tx, batched, None) \<Rightarrow> (tx, batched, None)
      | (tx, batched, Some e) \<Rightarrow> (db, batched, Some e))"

text \<open>
  The outer loop runs passes until one leaves \<open>batched\<close> at 0 or fails. Nothing in the
  source bounds the number of passes, so the loop is a partial function: \<open>None\<close> is a
  run that does not return.
\<close>

partial_function (option) until_passes ::
  "int \<Rightarrow> int64 \<Rightarrow> int64 \<Rightarrow> int64 \<Rightarrow> bytes \<Rightarrow> kvstore \<Rightarrow> (kvstore \<times> error option) option" where
  "until_passes txMaxBatch dt peekTs ident ch db =
     (case until_pass txMaxBatch dt peekTs ident ch db of
        (db', batched, Some e) \<Rightarrow> Some (db', Some e)
      | (db', batched, None) \<Rightarrow>
          if batched = 0 then Some (db', None)
          else until_passes txMaxBatch dt peekTs ident ch db')"

definition emptyDelayedUntil ::
  "int \<Rightarrow> DelayQueue \<Rightarrow> int64 \<Rightarrow> int64 \<Rightarrow> int64 \<Rightarrow> bytes \<Rightarrow> (DelayQueue \<times> error option) option" where
  "emptyDelayedUntil txMaxBatch q dt peekTs ident ch =
     (case until_passes txMaxBatch dt peekTs ident ch (kvStore q) of
        None \<Rightarrow> None
      | Some (db, Some e) \<Rightarrow> Some (q\<lparr>kvStore := db\<rparr>, Some e)
      | Some (db, None) \<Rightarrow>
          let q1 = q\<lparr>kvStore := db\<rparr> in
          Some (if dt = 1 \<and> ch \<noteq> []
                then q1\<lparr>oldestChannelDelayedTs := (oldestChannelDelayedTs q1)(ch \<mapsto> peekTs)\<rparr>
                else q1, None))"

fun all_loop ::
  "int \<Rightarrow> int64 \<Rightarrow> bytes \<Rightarrow> bytes \<Rightarrow> Message bucket \<Rightarrow> kvstore \<Rightarrow> int \<Rightarrow> kvstore \<times> int \<times> error option" where
  "all_loop txMaxBatch dt ch pfx [] tx batched = (tx, batched, None)"
| "all_loop txMaxBatch dt ch pfx ((k, v) # rest) tx batched =
     (if \<not> prefix pfx k then (tx, batched, None)
      else if txMaxBatch < batched then (tx, batched, None)
      else case decodeDelayedMsgDBKey k of
             Inl e \<Rightarrow>
               if e = PanicSliceBounds then (tx, batched, Some e)
               else all_loop txMaxBatch dt ch pfx rest tx batched
           | Inr (delayedType, delayedTs, delayedID, delayedCh) \<Rightarrow>
               if delayedType \<noteq> ucast dt then all_loop txMaxBatch dt ch pfx rest tx batched
               else if ch \<noteq> [] \<and> delayedCh \<noteq> ch then all_loop txMaxBatch dt ch pfx rest tx batched
               else case deleteBucketKey (ucast delayedType) delayedCh delayedTs delayedID tx of
                      (tx', Some e) \<Rightarrow>
                        if e \<noteq> ErrBucketKeyNotFound then (tx', batched, Some e)
                        else all_loop txMaxBatch dt ch pfx rest tx' (batched + 1)
                    | (tx', None) \<Rightarrow> all_loop txMaxBatch dt ch pfx rest tx' (batched + 1))"

definition all_pass :: "int \<Rightarrow> int64 \<Rightarrow> bytes \<Rightarrow> kvstore \<Rightarrow> kvstore \<times> int \<times> error option" where
  "all_pass txMaxBatch dt ch db =
     (let pfx = getDelayedMsgDBPrefixKey dt ch in
      case all_loop txMaxBatch dt ch pfx (seek pfx (delayed_message db)) db 0 of
        (tx, batched, None) \<Rightarrow> (tx, batched, None)
      | (tx, batched, Some e) \<Rightarrow> (db, batched, Some e))"

partial_function (option) all_passes ::
  "int \<Rightarrow> int64 \<Rightarrow> bytes \<Rightarrow> kvstore \<Rightarrow> (kvstore \<times> error option) option" where
  "all_passes txMaxBatch dt ch db =
     (case all_pass txMaxBatch dt ch db of
        (db', batched, Some e) \<Rightarrow> Some (db', Some e)
      | (db', batched, None) \<Rightarrow>
          if batched = 0 then Some (db', None)
          else all_passes txMaxBatch dt ch db')"

text \<open>\<open>now_plus_hour\<close> is \<open>time.Now().Add(time.Hour).UnixNano()\<close> at the call.\<close>

definition emptyAllDelayedType ::
  "int \<Rightarrow> int64 \<Rightarrow> DelayQueue \<Rightarrow> int64 \<Rightarrow> bytes \<Rightarrow> (DelayQueue \<times> error option) option" where
  "emptyAllDelayedType txMaxBatch now_plus_hour q dt ch =
     (case all_passes txMaxBatch dt ch (kvStore q) of
        None \<Rightarrow> None
      | Some (db, Some e) \<Rightarrow> Some (q\<lparr>kvStore := db\<rparr>, Some e)
      | Some (db, None) \<Rightarrow>
          let q1 = q\<lparr>kvStore := db\<rparr> in
          Some (if dt = 1 \<and> ch \<noteq> []
                then q1\<lparr>oldestChannelDelayedTs := (oldestChannelDelayedTs q1)(ch \<mapsto> now_plus_hour)\<rparr>
                else q1, None))"

subsection \<open>Peeking\<close>

text \<open>
  The cursor loop of \<open>PeekRecentTimeoutWithFilter\<close>. Its state is the result buffer, the
  index \<open>idx\<close> of the next free slot and \<open>oldest\<close>. A stored value is never \<open>nil\<close> and
  always decodes (see \<open>codec\<close>), so the two branches of the source for those cases are
  not taken.
\<close>

fun peek_loop ::
  "int64 \<Rightarrow> int64 \<Rightarrow> bytes \<Rightarrow> bytes \<Rightarrow> Message bucket \<Rightarrow> Message list \<Rightarrow> nat \<Rightarrow> int64 \<Rightarrow>
   Message list \<times> nat \<times> int64 \<times> error option" where
  "peek_loop peekTs filterType filterChannel pfx [] results idx oldest = (results, idx, oldest, None)"
| "peek_loop peekTs filterType filterChannel pfx ((k, v) # rest) results idx oldest =
     (if \<not> prefix pfx k then (results, idx, oldest, None)
      else case decodeDelayedMsgDBKey k of
             Inl e \<Rightarrow>
               if e = PanicSliceBounds then (results, idx, oldest, Some e)
               else peek_loop peekTs filterType filterChannel pfx rest results idx oldest
           | Inr (_, delayedTs, _, delayedCh) \<Rightarrow>
               let oldest1 = (if oldest = 0 \<and> filterType = 1 \<and> filterChannel \<noteq> []
                              then delayedTs else oldest)
               in if peekTs <s delayedTs \<or> length results \<le> idx then (results, idx, oldest1, None)
                  else if filterChannel \<noteq> [] \<and> delayedCh \<noteq> filterChannel
                  then peek_loop peekTs filterType filterChannel pfx rest results idx oldest1
                  else if 0 \<le>s filterType \<and> filterType \<noteq> scast (DelayedType v)
                  then peek_loop peekTs filterType filterChannel pfx rest results idx oldest1
                  else peek_loop peekTs filterType filterChannel pfx rest
                         (results[idx := v]) (idx + 1) oldest1)"

text \<open>
  \<open>PeekRecentTimeoutWithFilter(results, peekTs, filterType, filterChannel)\<close>: the engine
  (whose hint map may change), the buffer, the count returned and the error.
\<close>

definition PeekRecentTimeoutWithFilter ::
  "DelayQueue \<Rightarrow> Message list \<Rightarrow> int64 \<Rightarrow> int64 \<Rightarrow> bytes \<Rightarrow>
   DelayQueue \<times> Message list \<times> nat \<times> error option" where
  "PeekRecentTimeoutWithFilter q results peekTs filterType filterChannel =
     (if filterType = 1 \<and> filterChannel \<noteq> [] \<and>
         (case oldestChannelDelayedTs q filterChannel of
            None \<Rightarrow> False | Some oldest \<Rightarrow> peekTs <s oldest)
      then (q, results, 0, None)
      else
        let pfx = (if 0 <s filterType then getDelayedMsgDBPrefixKey filterType filterChannel else [])
        in case peek_loop peekTs filterType filterChannel pfx
                  (seek pfx (delayed_message (kvStore q))) results 0 0 of
             (results', idx, oldest, Some e) \<Rightarrow> (q, results', idx, Some e)
           | (results', idx, oldest, None) \<Rightarrow>
               (if 0 <s oldest
                then q\<lparr>oldestChannelDelayedTs := (oldestChannelDelayedTs q)(filterChannel \<mapsto> oldest)\<rparr>
                else q, results', idx, None))"

section \<open>Invariants of the index store\<close>

text \<open>
  A bucket is well formed when its keys are strictly ascending. \<open>count_prefix p b\<close> is the
  number of keys of \<open>b\<close> that have the byte prefix \<open>p\<close>. \<open>key_of\<close>, \<open>prefix_of\<close> and
  \<open>index_key_of\<close> are the keys \<open>put\<close> computes for a message.
\<close>

definition wf_bucket :: "'v bucket \<Rightarrow> bool" where
  "wf_bucket b = sorted_wrt (<) (map fst b)"

definition count_prefix :: "bytes \<Rightarrow> 'v bucket \<Rightarrow> nat" where
  "count_prefix p b = length (filter (\<lambda>kv. prefix p (fst kv)) b)"

definition key_of :: "Message \<Rightarrow> bytes" where
  "key_of m = getDelayedMsgDBKey (scast (DelayedType m)) (DelayedChannel m) (DelayedTs m) (ID m)"

definition prefix_of :: "Message \<Rightarrow> bytes" where
  "prefix_of m = getDelayedMsgDBPrefixKey (scast (DelayedType m)) (DelayedChannel m)"

definition index_key_of :: "Message \<Rightarrow> bytes" where
  "index_key_of m = getDelayedMsgDBIndexKey (scast (DelayedType m)) (DelayedChannel m) (DelayedOrigID m)"

definition store_wf :: "kvstore \<Rightarrow> bool" where
  "store_wf kv \<longleftrightarrow>
     wf_bucket (delayed_message kv) \<and> wf_bucket (delayed_message_index kv) \<and> wf_bucket (meta kv) \<and>
     (\<forall>(k, m) \<in> set (delayed_message kv). k = key_of m \<and> length (DelayedChannel m) < 65536)"

definition counter_cell_ok :: "bytes option \<Rightarrow> nat \<Rightarrow> bool" where
  "counter_cell_ok cell n =
     (case cell of None \<Rightarrow> n = 0 | Some v \<Rightarrow> length v = 8 \<and> Uint64 v = of_nat n)"

definition counters_ok :: "kvstore \<Rightarrow> bool" where
  "counters_ok kv \<longleftrightarrow>
     (\<forall>dt ch. length ch < 65536 \<longrightarrow>
        counter_cell_ok (bget (meta kv) (counter_prefix @ getDelayedMsgDBPrefixKey dt ch))
          (count_prefix (getDelayedMsgDBPrefixKey dt ch) (delayed_message kv)))"

definition index_value_of :: "Message \<Rightarrow> bytes" where
  "index_value_of m = getDelayedMsgDBIndexValue (DelayedTs m) (DelayedOrigID m)"



text \<open>The message \<open>put\<close> stores: the one given or decoded, with its identifier assigned.\<close>

definition assign_id :: "call_env \<Rightarrow> DelayQueue \<Rightarrow> Message \<Rightarrow> Message" where
  "assign_id env q m = (if ID m \<le>s 0 then m\<lparr>ID := snd (nextMsgID env q)\<rparr> else m)"

text \<open>No key of the \<open>delayed_message\<close> and \<open>meta\<close> buckets has 65536 bytes or more.\<close>

definition keys_bounded :: "kvstore \<Rightarrow> bool" where
  "keys_bounded kv \<longleftrightarrow>
     (\<forall>kv' \<in> set (delayed_message kv). length (fst kv') < 65536) \<and>
     (\<forall>kv' \<in> set (meta kv). length (fst kv') < 65536)"

definition kv_inv :: "nat \<Rightarrow> kvstore \<Rightarrow> bool" where
  "kv_inv n kv \<longleftrightarrow>
     store_wf kv \<and> counters_ok kv \<and> keys_bounded kv \<and> length (delayed_message kv) \<le> n"

text \<open>
  An entry is below the bound \<open>(peekTs, ident)\<close> when the emptying loop does not stop at
  it, and is due for a prefix when moreover its key has the prefix.
\<close>

definition below_bound :: "int64 \<Rightarrow> int64 \<Rightarrow> Message \<Rightarrow> bool" where
  "below_bound peekTs ident v \<longleftrightarrow>
     \<not> peekTs <s DelayedTs v \<and> \<not> (DelayedTs v = peekTs \<and> ident \<le>s ID v)"

definition due :: "int64 \<Rightarrow> int64 \<Rightarrow> bytes \<Rightarrow> bytes \<times> Message \<Rightarrow> bool" where
  "due peekTs ident pfx kv \<longleftrightarrow> prefix pfx (fst kv) \<and> below_bound peekTs ident (snd kv)"

text \<open>
  What a peek with deadline \<open>peekTs\<close> and the filters \<open>filterType\<close>, \<open>filterChannel\<close>
  accepts: the message is due (signed comparison), has the channel asked for when one
  is asked for, and the type asked for when that is not negative.
\<close>

definition peek_match :: "int64 \<Rightarrow> int64 \<Rightarrow> bytes \<Rightarrow> Message \<Rightarrow> bool" where
  "peek_match peekTs filterType filterChannel v \<longleftrightarrow>
     \<not> peekTs <s DelayedTs v \<and>
     (filterChannel = [] \<or> DelayedChannel v = filterChannel) \<and>
     (filterType <s 0 \<or> filterType = scast (DelayedType v))"

section \<open>Sequences of operations\<close>

text \<open>
  The operations that write the index store, each with what it takes from outside.
  \<open>apply_op\<close> is the engine after the operation has returned (with or without an
  error), \<open>None\<close> when it does not return; \<open>run\<close> applies a list of operations.
\<close>

datatype op =
    PutOp call_env Message
  | PutRawOp call_env "bytes option" int64 int64 int32
  | PutReplicaOp call_env Message int64 int64
  | ConfirmOp Message
  | EmptyUntilOp int64 int64 int64 bytes
  | EmptyAllOp int64 int64 bytes

fun apply_op :: "codec \<Rightarrow> int \<Rightarrow> DelayQueue \<Rightarrow> op \<Rightarrow> DelayQueue option" where
  "apply_op cd txMaxBatch q (PutOp env m) = Some (fst (PutDelayMessage cd env q m))"
| "apply_op cd txMaxBatch q (PutRawOp env rawData offset checkSize msgNum) =
     Some (fst (PutRawDataOnReplica cd env q rawData offset checkSize msgNum))"
| "apply_op cd txMaxBatch q (PutReplicaOp env m offset checkSize) =
     Some (fst (PutMessageOnReplica cd env q m offset checkSize))"
| "apply_op cd txMaxBatch q (ConfirmOp m) = Some (fst (ConfirmedMessage q m))"
| "apply_op cd txMaxBatch q (EmptyUntilOp dt peekTs ident ch) =
     map_option fst (emptyDelayedUntil txMaxBatch q dt peekTs ident ch)"
| "apply_op cd txMaxBatch q (EmptyAllOp now_plus_hour dt ch) =
     map_option fst (emptyAllDelayedType txMaxBatch now_plus_hour q dt ch)"

fun run :: "codec \<Rightarrow> int \<Rightarrow> DelayQueue \<Rightarrow> op list \<Rightarrow> DelayQueue option" where
  "run cd txMaxBatch q [] = Some q"
| "run cd txMaxBatch q (x # xs) =
     (case apply_op cd txMaxBatch q x of None \<Rightarrow> None | Some q' \<Rightarrow> run cd txMaxBatch q' xs)"

text \<open>
  \<open>put_ok_of\<close> is the parameter \<open>kv_put_ok\<close> of a put operation. An operation is
  \<open>key_limited\<close> when the store it writes to refuses every key of 65536 bytes or more.
\<close>

fun put_ok_of :: "op \<Rightarrow> bytes \<Rightarrow> bool" where
  "put_ok_of (PutOp env m) = kv_put_ok env"
| "put_ok_of (PutRawOp env rawData offset checkSize msgNum) = kv_put_ok env"
| "put_ok_of (PutReplicaOp env m offset checkSize) = kv_put_ok env"
| "put_ok_of (ConfirmOp m) = (\<lambda>k. False)"
| "put_ok_of (EmptyUntilOp dt peekTs ident ch) = (\<lambda>k. False)"
| "put_ok_of (EmptyAllOp now_plus_hour dt ch) = (\<lambda>k. False)"

definition key_limited :: "op \<Rightarrow> bool" where
  "key_limited x \<longleftrightarrow> (\<forall>k. put_ok_of x k \<longrightarrow> length k < 65536)"

text \<open>
  \<open>stored_msg\<close> is the message a put operation stores in the state it runs in. In a
  \<open>fresh_run\<close> every put stores a message whose index key \<open>(type, channel, origId)\<close> is
  not the index key of a live message under another primary key.
\<close>

fun stored_msg :: "codec \<Rightarrow> DelayQueue \<Rightarrow> op \<Rightarrow> Message option" where
  "stored_msg cd q (PutOp env m) = Some (assign_id env q m)"
| "stored_msg cd q (PutRawOp env rawData offset checkSize msgNum) =
     (case rawData of
        None \<Rightarrow> Some (assign_id env q \<lparr>ID = 0, TraceID = 0, Body = [], Timestamp = 0, DelayedType = 0,
                                       DelayedTs = 0, DelayedOrigID = 0, DelayedChannel = []\<rparr>)
      | Some raw \<Rightarrow>
          if length raw < 4 then None
          else map_option (assign_id env q) (DecodeDelayedMessage cd (drop 4 raw)))"
| "stored_msg cd q (PutReplicaOp env m offset checkSize) = Some (assign_id env q m)"
| "stored_msg cd q (ConfirmOp m) = None"
| "stored_msg cd q (EmptyUntilOp dt peekTs ident ch) = None"
| "stored_msg cd q (EmptyAllOp now_plus_hour dt ch) = None"


section \<open>Example states\<close>

definition ok_io :: io_env where
  "ok_io = \<lparr>open_ok = True, seek_ok = True, write_ok = True, fsync_ok = True, persist_ok = True\<rparr>"

definition ok_env :: call_env where
  "ok_env = \<lparr>io_put = ok_io, io_flush = ok_io, io_reset = ok_io,
             file_size = (\<lambda>n. None), cursor_id = None,
             kv_put_ok = (\<lambda>k. length k \<le> 32768)\<rparr>"

definition fresh_writer :: diskQueueWriter where
  "fresh_writer =
     \<lparr>diskWriteEnd = zeroEndInfo, diskReadEnd = zeroEndInfo, diskQueueStart = zeroEndInfo,
      maxBytesPerFile = 1024, minMsgSize = 1, maxMsgSize = 4096,
      exitFlag = False, needSync = False, writeFile = False\<rparr>"

definition empty_store :: kvstore where
  "empty_store = \<lparr>delayed_message = [], delayed_message_index = [], meta = []\<rparr>"

definition fresh_queue :: DelayQueue where
  "fresh_queue =
     \<lparr>backend = fresh_writer, q_exitFlag = False, defaultIDSeq = 0, needFlush = False,
      kvStore = empty_store, SyncEvery = 0, lastSyncCnt = 0,
      oldestChannelDelayedTs = (\<lambda>c. None)\<rparr>"

text \<open>A codec for the examples: every encoding has 40 bytes, no raw record decodes.\<close>

definition example_codec :: codec where
  "example_codec = \<lparr>WriteDelayedTo_size = (\<lambda>m. 40), DecodeDelayedMessage = (\<lambda>b. None)\<rparr>"

text \<open>A message of type \<open>ChannelDelayed\<close> for channel \<open>c\<close> (byte 99).\<close>

definition chan_msg :: "int64 \<Rightarrow> int64 \<Rightarrow> int64 \<Rightarrow> Message" where
  "chan_msg ident orig ts =
     \<lparr>ID = ident, TraceID = 0, Body = [], Timestamp = 0, DelayedType = 1,
      DelayedTs = ts, DelayedOrigID = orig, DelayedChannel = [99]\<rparr>"

text \<open>
  A fresh engine after one put (\<open>q_one\<close>), after a second put with the same \<open>origId\<close>
  (\<open>q_two\<close>), and after the first message has been confirmed (\<open>q_three\<close>).
\<close>

definition q_one :: DelayQueue where
  "q_one = fst (PutDelayMessage example_codec ok_env fresh_queue (chan_msg 0 5 100))"

definition q_two :: DelayQueue where
  "q_two = fst (PutDelayMessage example_codec ok_env q_one (chan_msg 0 5 200))"


text \<open>
  A fresh engine after the puts of \<open>m1\<close> (due at 200), \<open>m2\<close> (due at 100) and \<open>m3\<close> (due
  at 200) for channel \<open>c\<close>, with the original identifiers 5, 6 and 7 (\<open>s_one\<close>, \<open>s_two\<close>,
  \<open>s_three\<close>), and after \<open>m2\<close> has been confirmed under the identifier 2 it was given
  (\<open>s_four\<close>); \<open>example_ops\<close> is that run.
\<close>

definition s_one :: DelayQueue where
  "s_one = fst (PutDelayMessage example_codec ok_env fresh_queue (chan_msg 0 5 200))"

definition s_two :: DelayQueue where
  "s_two = fst (PutDelayMessage example_codec ok_env s_one (chan_msg 0 6 100))"

definition s_three :: DelayQueue where
  "s_three = fst (PutDelayMessage example_codec ok_env s_two (chan_msg 0 7 200))"

definition s_four :: DelayQueue where
  "s_four = fst (ConfirmedMessage s_three (chan_msg 0 2 100))"

definition example_ops :: "op list" where
  "example_ops = [PutOp ok_env (chan_msg 0 5 200), PutOp ok_env (chan_msg 0 6 100),
                  PutOp ok_env (chan_msg 0 7 200), ConfirmOp (chan_msg 0 2 100)]"

text \<open>
  A message of type \<open>ChannelDelayed\<close> for any channel, and a fresh engine after a put
  for channel \<open>aa\<close> (\<open>q_aa\<close>) and a second put for channel \<open>b\<close> (\<open>q_ab\<close>).
\<close>

definition msg_on :: "bytes \<Rightarrow> int64 \<Rightarrow> int64 \<Rightarrow> int64 \<Rightarrow> Message" where
  "msg_on ch ident orig ts =
     \<lparr>ID = ident, TraceID = 0, Body = [], Timestamp = 0, DelayedType = 1,
      DelayedTs = ts, DelayedOrigID = orig, DelayedChannel = ch\<rparr>"

definition q_aa :: DelayQueue where
  "q_aa = fst (PutDelayMessage example_codec ok_env fresh_queue (msg_on [97, 97] 0 5 100))"

definition q_ab :: DelayQueue where
  "q_ab = fst (PutDelayMessage example_codec ok_env q_aa (msg_on [98] 0 6 100))"

section \<open>Properties of the log writer\<close>

lemma sync_diskWriteEnd [simp]: "diskWriteEnd (fst (sync io d)) = diskWriteEnd d"
  by (simp add: sync_def Let_def)

lemma sync_diskQueueStart [simp]: "diskQueueStart (fst (sync io d)) = diskQueueStart d"
  by (simp add: sync_def Let_def)

lemma sync_err: "sync io d = (x, Some e) \<Longrightarrow> e = ErrIO"
  by (auto simp: sync_def Let_def split: if_splits)

lemma writeOne_err:
  "writeOne io d n r c = (d', off, wb, dend, Some e) \<Longrightarrow> e = ErrIO \<or> e = ErrInvalidWriteSize"
  by (auto simp: writeOne_def Let_def split: if_splits prod.splits dest: sync_err)

lemma PutV2_err:
  "PutV2 io d n = (d', off, wb, dend, Some e) \<Longrightarrow> e = ErrIO \<or> e = ErrInvalidWriteSize \<or> e = ErrExiting"
  by (auto simp: PutV2_def split: if_splits prod.splits dest: writeOne_err)

lemma sint_sub_exact:
  fixes a b :: int64
  assumes "- (2 ^ 63) \<le> sint a - uint b"
  shows "sint (a - b) = sint a - uint b"
proof -
  have "sint a < 2 ^ 63" using sint_lt [of a] by simp
  moreover have "0 \<le> uint b" by simp
  ultimately have u: "sint a - uint b < 2 ^ 63" by linarith
  have "a - b = word_of_int (sint a - uint b)" by simp
  then have "sint (a - b) = sint (word_of_int (sint a - uint b) :: int64)" by (rule arg_cong)
  also have "\<dots> = signed_take_bit 63 (sint a - uint b)"
    unfolding sint_sbintrunc' by simp
  also have "\<dots> = sint a - uint b"
    using assms u by (intro signed_take_bit_int_eq_self)
  finally show ?thesis .
qed

text \<open>
  C4, as the source has it. \<open>diffCnt\<close> is a \<open>uint64\<close> that the source converts with
  \<open>int64(diffCnt)\<close>, so the count test and the new count are computed modulo \<open>2^64\<close>.
  When the difference of the message count and \<open>diffCnt\<close> fits an \<open>int64\<close> (it is at
  least \<open>-2^63\<close>), \<open>RollbackWriteV2(offset, diffCnt)\<close> fails with \<open>ErrInvalidOffset\<close>,
  leaving the write end as it was, exactly when the target is below the queue start's
  virtual offset, or the message count less \<open>diffCnt\<close> is below the queue start's count,
  or the target is above the write end, or the target is below the start of the current
  write file (\<open>virtualEnd - Pos\<close>). In every other case it succeeds: the write end's
  virtual offset is then the target, its message count has gone down by exactly
  \<open>diffCnt\<close>, its position in the file by the bytes rolled back, and the file number is
  unchanged. The fourth condition is strict, so a target exactly at the start of the
  current file is accepted. The comparisons of offsets are the source's signed 64-bit
  ones.
\<close>

theorem RollbackWriteV2_spec:
  assumes "RollbackWriteV2 io d offset diffCnt = (d', e, r)"
    and "- (2 ^ 63) \<le> sint (totalMsgCnt (diskWriteEnd d)) - uint diffCnt"
  shows "e = diskWriteEnd d' \<and> diskQueueStart d' = diskQueueStart d \<and>
         (if offset <s virtualEnd (diskQueueStart d) \<or>
             sint (totalMsgCnt (diskWriteEnd d)) - uint diffCnt < sint (totalMsgCnt (diskQueueStart d)) \<or>
             virtualEnd (diskWriteEnd d) <s offset \<or>
             offset <s virtualEnd (diskWriteEnd d) - Pos (diskWriteEnd d)
          then r = Some ErrInvalidOffset \<and> diskWriteEnd d' = diskWriteEnd d
          else r = None \<and>
               virtualEnd (diskWriteEnd d') = offset \<and>
               sint (totalMsgCnt (diskWriteEnd d')) = sint (totalMsgCnt (diskWriteEnd d)) - uint diffCnt \<and>
               Pos (diskWriteEnd d') = Pos (diskWriteEnd d) - (virtualEnd (diskWriteEnd d) - offset) \<and>
               FileNum (diskWriteEnd d') = FileNum (diskWriteEnd d))"
proof -
  note x = sint_sub_exact [OF assms(2)]
  have c: "totalMsgCnt (diskWriteEnd d) - diffCnt <s totalMsgCnt (diskQueueStart d) \<longleftrightarrow>
           sint (totalMsgCnt (diskWriteEnd d)) - uint diffCnt < sint (totalMsgCnt (diskQueueStart d))"
    by (simp add: word_sless_alt x)
  have w: "e = diskWriteEnd d' \<and> diskQueueStart d' = diskQueueStart d \<and>
         (if offset <s virtualEnd (diskQueueStart d) \<or>
             totalMsgCnt (diskWriteEnd d) - diffCnt <s totalMsgCnt (diskQueueStart d) \<or>
             virtualEnd (diskWriteEnd d) <s offset \<or>
             offset <s virtualEnd (diskWriteEnd d) - Pos (diskWriteEnd d)
          then r = Some ErrInvalidOffset \<and> diskWriteEnd d' = diskWriteEnd d
          else r = None \<and>
               virtualEnd (diskWriteEnd d') = offset \<and>
               sint (totalMsgCnt (diskWriteEnd d')) = sint (totalMsgCnt (diskWriteEnd d) - diffCnt) \<and>
               Pos (diskWriteEnd d') = Pos (diskWriteEnd d) - (virtualEnd (diskWriteEnd d) - offset) \<and>
               FileNum (diskWriteEnd d') = FileNum (diskWriteEnd d))"
    using assms(1)
    by (auto simp: RollbackWriteV2_def Let_def truncateDiskQueueToWriteEnd_def split: if_splits)
  show ?thesis using w unfolding c x .
qed

text \<open>
  The witness: a writer 30 bytes into file 2 at virtual offset 130, rolled back to
  offset 100, the start of file 2, dropping 3 of its 7 messages.
\<close>

definition rollback_writer :: diskQueueWriter where
  "rollback_writer =
     fresh_writer\<lparr>diskWriteEnd := \<lparr>FileNum = 2, Pos = 30, virtualEnd = 130, totalMsgCnt = 7\<rparr>\<rparr>"

definition rollback_result :: diskQueueWriter where
  "rollback_result =
     fresh_writer\<lparr>diskWriteEnd := \<lparr>FileNum = 2, Pos = 0, virtualEnd = 100, totalMsgCnt = 4\<rparr>\<rparr>"

lemma rollback_example:
  "RollbackWriteV2 ok_io rollback_writer 100 3 = (rollback_result, diskWriteEnd rollback_result, None)"
  by (simp add: RollbackWriteV2_def rollback_writer_def rollback_result_def fresh_writer_def
      zeroEndInfo_def Let_def truncateDiskQueueToWriteEnd_def word_sless_alt)

text \<open>
  The witness: the writer above rolled back to offset 100, the start of file 2,
  dropping 3 of its 7 messages.
\<close>

theorem RollbackWriteV2_spec_witness:
  "- (2 ^ 63) \<le> sint (totalMsgCnt (diskWriteEnd rollback_writer)) - uint (3 :: int64) \<and>
   RollbackWriteV2 ok_io rollback_writer 100 3 = (rollback_result, diskWriteEnd rollback_result, None) \<and>
   virtualEnd (diskWriteEnd rollback_result) = 100 \<and>
   sint (totalMsgCnt (diskWriteEnd rollback_result)) = 4 \<and>
   Pos (diskWriteEnd rollback_result) = 0"
proof -
  have h: "- (2 ^ 63) \<le> sint (totalMsgCnt (diskWriteEnd rollback_writer)) - uint (3 :: int64)"
    by (simp add: rollback_writer_def fresh_writer_def)
  show ?thesis
    using RollbackWriteV2_spec [OF rollback_example h] h
    by (simp add: rollback_example rollback_result_def fresh_writer_def)
qed

text \<open>
  Without the bound the statement fails. With \<open>diffCnt = 2^64 - 1\<close>, which \<open>int64(diffCnt)\<close>
  reads as -1, the count 7 less \<open>diffCnt\<close> is far below the queue start's count 0, yet
  the call succeeds and the count goes up from 7 to 8.
\<close>

lemma rollback_wrap:
  "RollbackWriteV2 ok_io rollback_writer 100 (- 1) =
     (fresh_writer\<lparr>diskWriteEnd := \<lparr>FileNum = 2, Pos = 0, virtualEnd = 100, totalMsgCnt = 8\<rparr>\<rparr>,
      \<lparr>FileNum = 2, Pos = 0, virtualEnd = 100, totalMsgCnt = 8\<rparr>, None)"
  by (simp add: RollbackWriteV2_def rollback_writer_def fresh_writer_def
      zeroEndInfo_def Let_def truncateDiskQueueToWriteEnd_def word_sless_alt)

theorem RollbackWriteV2_wrap_counterexample:
  "uint (- 1 :: int64) = 18446744073709551615 \<and>
   sint (totalMsgCnt (diskWriteEnd rollback_writer)) = 7 \<and>
   sint (totalMsgCnt (diskQueueStart rollback_writer)) = 0 \<and>
   RollbackWriteV2 ok_io rollback_writer 100 (- 1) =
     (fresh_writer\<lparr>diskWriteEnd := \<lparr>FileNum = 2, Pos = 0, virtualEnd = 100, totalMsgCnt = 8\<rparr>\<rparr>,
      \<lparr>FileNum = 2, Pos = 0, virtualEnd = 100, totalMsgCnt = 8\<rparr>, None)"
proof -
  have u: "uint (- 1 :: int64) = 18446744073709551615"
    by (simp add: unsigned_minus_1_eq_mask mask_eq_exp_minus_1)
  have t: "sint (totalMsgCnt (diskWriteEnd rollback_writer)) = 7"
    "sint (totalMsgCnt (diskQueueStart rollback_writer)) = 0"
    by (simp_all add: rollback_writer_def fresh_writer_def zeroEndInfo_def)
  show ?thesis by (intro conjI u t rollback_wrap)
qed

section \<open>Properties of the encodings and the buckets\<close>

lemma length_be_bytes [simp]: "length (be_bytes n v) = n"
  by (induction n arbitrary: v) auto

lemma be_val_append: "be_val (xs @ [x]) = be_val xs * 256 + unat x"
  by (simp add: be_val_def)

lemma be_val_be_bytes: "be_val (be_bytes n v) = v mod 256 ^ n"
proof (induction n arbitrary: v)
  case 0
  then show ?case by (simp add: be_val_def)
next
  case (Suc n)
  have u: "unat (of_nat (v mod 256) :: byte) = v mod 256"
    by (simp add: unat_of_nat take_bit_eq_mod)
  have "be_val (be_bytes (Suc n) v) = (v div 256) mod 256 ^ n * 256 + v mod 256"
    by (simp add: be_val_append Suc.IH u)
  also have "\<dots> = v mod 256 ^ Suc n"
    by (simp add: mod_mult2_eq)
  finally show ?case .
qed

lemma Uint64_PutUint64 [simp]: "Uint64 (PutUint64 w @ xs) = w"
proof -
  have "take 8 (PutUint64 w @ xs) = PutUint64 w" by (simp add: PutUint64_def)
  moreover have "unat w mod 256 ^ 8 = unat w"
    using unsigned_less [of w, where 'a = nat] by simp
  ultimately show ?thesis by (simp add: Uint64_def PutUint64_def be_val_be_bytes del: be_bytes.simps)
qed

lemma Uint16_PutUint16 [simp]: "Uint16 (PutUint16 w @ xs) = w"
proof -
  have "take 2 (PutUint16 w @ xs) = PutUint16 w" by (simp add: PutUint16_def)
  moreover have "unat w mod 256 ^ 2 = unat w"
    using unsigned_less [of w, where 'a = nat] by simp
  ultimately show ?thesis by (simp add: Uint16_def PutUint16_def be_val_be_bytes del: be_bytes.simps)
qed

lemma length_PutUint64 [simp]: "length (PutUint64 w) = 8" by (simp add: PutUint64_def del: be_bytes.simps)
lemma length_PutUint16 [simp]: "length (PutUint16 w) = 2" by (simp add: PutUint16_def del: be_bytes.simps)

lemma PutUint64_inj: "PutUint64 a = PutUint64 b \<Longrightarrow> a = b"
  by (metis Uint64_PutUint64)
lemma PutUint16_inj: "PutUint16 a = PutUint16 b \<Longrightarrow> a = b"
  by (metis Uint16_PutUint16)

lemma unat_len16: "length (ch :: bytes) < 65536 \<Longrightarrow> unat (of_nat (length ch) :: 16 word) = length ch"
  by (simp add: unat_of_nat take_bit_eq_mod)

lemma Uint16_PutUint16_nil [simp]: "Uint16 (PutUint16 w) = w"
  using Uint16_PutUint16 [of w "[]"] by simp

lemma Uint64_take8 [simp]: "Uint64 (take 8 xs) = Uint64 xs"
  by (simp add: Uint64_def)

lemma Uint16_take2 [simp]: "Uint16 (take 2 xs) = Uint16 xs"
  by (simp add: Uint16_def)

lemma decode_getKey:
  assumes "length ch < 65536"
  shows "decodeDelayedMsgDBKey (getDelayedMsgDBKey dt ch ts ident) = Inr (ucast dt, ts, ident, ch)"
proof -
  let ?k = "getDelayedMsgDBKey dt ch ts ident"
  have k: "?k = PutUint16 (ucast dt) @ [45] @ PutUint16 (of_nat (length ch)) @ ch @ PutUint64 ts @ PutUint64 ident"
    by (simp add: getDelayedMsgDBKey_def)
  have a: "Uint16 ?k = ucast dt" unfolding k by simp
  have d3: "drop 3 ?k = PutUint16 (of_nat (length ch)) @ ch @ PutUint64 ts @ PutUint64 ident"
    unfolding k by simp
  have b: "unat (Uint16 (drop 3 ?k)) = length ch" unfolding d3 using assms by (simp add: unat_len16)
  have d5: "drop 5 ?k = ch @ PutUint64 ts @ PutUint64 ident" unfolding k by simp
  have c: "take (length ch) (drop 5 ?k) = ch" unfolding d5 by simp
  define pre where "pre = PutUint16 (ucast dt) @ [45] @ PutUint16 (of_nat (length ch)) @ ch"
  have lp: "5 + length ch = length pre" by (simp add: pre_def)
  have kp: "?k = pre @ PutUint64 ts @ PutUint64 ident" by (simp add: k pre_def)
  have d6: "drop (5 + length ch) ?k = PutUint64 ts @ PutUint64 ident"
    unfolding lp kp by simp
  have d7: "drop (5 + length ch + 8) ?k = PutUint64 ident"
    unfolding lp kp by simp
  have e: "Uint64 (drop (5 + length ch) ?k) = ts" unfolding d6 by simp
  have f: "Uint64 (drop (5 + length ch + 8) ?k) = ident"
    unfolding d7 using Uint64_PutUint64 [of ident "[]"] by simp
  have l: "length ?k = 21 + length ch" unfolding k by simp
  show ?thesis
    unfolding decodeDelayedMsgDBKey_def Let_def
    by (simp only: Uint16_take2 Uint64_take8 a b c e f l) simp
qed

lemma length_getKey [simp]: "length (getDelayedMsgDBKey dt ch ts ident) = 21 + length ch"
  by (simp add: getDelayedMsgDBKey_def)

lemma length_getPrefix [simp]: "length (getDelayedMsgDBPrefixKey dt ch) = 5 + length ch"
  by (simp add: getDelayedMsgDBPrefixKey_def)

lemma getKey_split:
  "getDelayedMsgDBKey dt ch ts ident = getDelayedMsgDBPrefixKey dt ch @ PutUint64 ts @ PutUint64 ident"
  by (simp add: getDelayedMsgDBKey_def getDelayedMsgDBPrefixKey_def)

lemma getIndexKey_split:
  "getDelayedMsgDBIndexKey dt ch ident = getDelayedMsgDBPrefixKey dt ch @ PutUint64 ident"
  by (simp add: getDelayedMsgDBIndexKey_def getDelayedMsgDBPrefixKey_def)

lemma prefixKey_eq_iff:
  assumes "length ch < 65536" "length ch' < 65536"
  shows "getDelayedMsgDBPrefixKey dt ch = getDelayedMsgDBPrefixKey dt' ch' \<longleftrightarrow>
         (ucast dt :: 16 word) = ucast dt' \<and> ch = ch'"
proof
  assume e: "getDelayedMsgDBPrefixKey dt ch = getDelayedMsgDBPrefixKey dt' ch'"
  then have "length ch = length ch'"
    by (metis length_getPrefix add_left_cancel)
  with e show "(ucast dt :: 16 word) = ucast dt' \<and> ch = ch'"
    by (auto simp: getDelayedMsgDBPrefixKey_def dest: PutUint16_inj)
next
  assume "(ucast dt :: 16 word) = ucast dt' \<and> ch = ch'"
  then show "getDelayedMsgDBPrefixKey dt ch = getDelayedMsgDBPrefixKey dt' ch'"
    by (simp add: getDelayedMsgDBPrefixKey_def)
qed

text \<open>A key with a short channel has the prefix of (dt, ch) only if that is its own prefix.\<close>

lemma prefix_getKey_iff:
  assumes "length ch < 65536" "length ch' < 65536"
  shows "prefix (getDelayedMsgDBPrefixKey dt ch) (getDelayedMsgDBKey dt' ch' ts ident) \<longleftrightarrow>
         getDelayedMsgDBPrefixKey dt ch = getDelayedMsgDBPrefixKey dt' ch'"
proof
  assume p: "prefix (getDelayedMsgDBPrefixKey dt ch) (getDelayedMsgDBKey dt' ch' ts ident)"
  then obtain zs where z: "getDelayedMsgDBKey dt' ch' ts ident = getDelayedMsgDBPrefixKey dt ch @ zs"
    by (auto simp: prefix_def)
  have l: "(of_nat (length ch) :: 16 word) = of_nat (length ch')"
    using z by (auto simp: getDelayedMsgDBKey_def getDelayedMsgDBPrefixKey_def dest: PutUint16_inj)
  have "length ch = length ch'"
    using l assms by (metis unat_len16)
  then show "getDelayedMsgDBPrefixKey dt ch = getDelayedMsgDBPrefixKey dt' ch'"
    using z by (auto simp: getDelayedMsgDBKey_def getDelayedMsgDBPrefixKey_def)
next
  assume "getDelayedMsgDBPrefixKey dt ch = getDelayedMsgDBPrefixKey dt' ch'"
  then show "prefix (getDelayedMsgDBPrefixKey dt ch) (getDelayedMsgDBKey dt' ch' ts ident)"
    by (simp add: getKey_split)
qed

lemma getKey_eq_imp:
  assumes "getDelayedMsgDBKey dt ch ts ident = getDelayedMsgDBKey dt' ch' ts' ident'"
  shows "getDelayedMsgDBPrefixKey dt ch = getDelayedMsgDBPrefixKey dt' ch' \<and> ts = ts' \<and> ident = ident'"
proof -
  have "length ch = length ch'" using assms by (metis length_getKey add_left_cancel)
  then show ?thesis using assms
    by (auto simp: getDelayedMsgDBKey_def getDelayedMsgDBPrefixKey_def dest: PutUint64_inj)
qed

lemma wf_bucket_Nil [simp]: "wf_bucket []" by (simp add: wf_bucket_def)

lemma wf_bucket_Cons: "wf_bucket ((k, v) # b) \<longleftrightarrow> (\<forall>kv \<in> set b. k < fst kv) \<and> wf_bucket b"
  by (auto simp: wf_bucket_def)

lemma set_bput: "wf_bucket b \<Longrightarrow> set (bput k v b) = insert (k, v) {kv \<in> set b. fst kv \<noteq> k}"
proof (induction b)
  case Nil
  then show ?case by simp
next
  case (Cons a b)
  obtain k1 v1 where a: "a = (k1, v1)" by (cases a)
  have w: "wf_bucket b" and lt: "\<forall>kv \<in> set b. k1 < fst kv"
    using Cons.prems unfolding a by (auto simp: wf_bucket_Cons)
  consider "k < k1" | "k = k1" | "k1 < k" by force
  then show ?case
  proof cases
    case 1
    then have "\<forall>kv \<in> set b. fst kv \<noteq> k" using lt by force
    then show ?thesis using 1 unfolding a by auto
  next
    case 2
    then have "\<forall>kv \<in> set b. fst kv \<noteq> k" using lt by force
    then show ?thesis using 2 unfolding a by auto
  next
    case 3
    then show ?thesis using Cons.IH [OF w] unfolding a by auto
  qed
qed

lemma wf_bput: "wf_bucket b \<Longrightarrow> wf_bucket (bput k v b)"
proof (induction b)
  case Nil
  then show ?case by (simp add: wf_bucket_def)
next
  case (Cons a b)
  obtain k' v' where a: "a = (k', v')" by (cases a)
  show ?case using Cons unfolding a
    by (auto simp: wf_bucket_Cons set_bput)
qed

lemma bget_None_iff: "bget b k = None \<longleftrightarrow> k \<notin> fst ` set b"
  by (simp add: bget_def map_of_eq_None_iff)

lemma bget_Some_iff: "wf_bucket b \<Longrightarrow> bget b k = Some v \<longleftrightarrow> (k, v) \<in> set b"
proof -
  assume "wf_bucket b"
  then have "distinct (map fst b)"
    unfolding wf_bucket_def by (simp add: strict_sorted_iff)
  then show ?thesis by (simp add: bget_def)
qed

lemma bget_bput: "wf_bucket b \<Longrightarrow> bget (bput k v b) k' = (if k' = k then Some v else bget b k')"
proof (induction b)
  case Nil
  then show ?case by (simp add: bget_def)
next
  case (Cons a b)
  obtain k1 v1 where a: "a = (k1, v1)" by (cases a)
  show ?case using Cons unfolding a
    by (auto simp: wf_bucket_Cons bget_def)
qed

lemma set_bdelete [simp]: "set (bdelete k b) = {kv \<in> set b. fst kv \<noteq> k}"
  by (auto simp: bdelete_def)

lemma wf_bdelete: "wf_bucket b \<Longrightarrow> wf_bucket (bdelete k b)"
  unfolding wf_bucket_def bdelete_def
  by (induction b) auto


lemma length_bput: "length (bput k v b) \<le> Suc (length b)"
  by (induction b) auto

lemma length_bdelete: "length (bdelete k b) \<le> length b"
  by (simp add: bdelete_def)

lemma count_prefix_bput:
  "wf_bucket b \<Longrightarrow>
   count_prefix p (bput k v b) =
     (if bget b k = None \<and> prefix p k then Suc (count_prefix p b) else count_prefix p b)"
proof (induction b)
  case Nil
  then show ?case by (simp add: count_prefix_def bget_def)
next
  case (Cons a b)
  obtain k1 v1 where a: "a = (k1, v1)" by (cases a)
  have w: "wf_bucket b" and lt: "\<forall>kv \<in> set b. k1 < fst kv"
    using Cons.prems unfolding a by (auto simp: wf_bucket_Cons)
  consider "k < k1" | "k = k1" | "k1 < k" by force
  then show ?case
  proof cases
    case 1
    then have "k \<notin> fst ` set b" using lt by force
    then have "bget b k = None" by (simp add: bget_None_iff)
    then show ?thesis using 1 unfolding a by (auto simp: bget_def count_prefix_def)
  next
    case 2
    then show ?thesis unfolding a by (auto simp: bget_def count_prefix_def)
  next
    case 3
    then show ?thesis using Cons.IH [OF w] unfolding a by (auto simp: bget_def count_prefix_def)
  qed
qed

lemma count_prefix_bdelete:
  "wf_bucket b \<Longrightarrow>
   count_prefix p (bdelete k b) =
     (if bget b k \<noteq> None \<and> prefix p k then count_prefix p b - 1 else count_prefix p b)"
proof (induction b)
  case Nil
  then show ?case by (simp add: count_prefix_def bget_def bdelete_def)
next
  case (Cons a b)
  obtain k1 v1 where a: "a = (k1, v1)" by (cases a)
  have nk: "k = k1 \<Longrightarrow> bget b k = None"
    using Cons.prems unfolding a by (force simp: bget_None_iff wf_bucket_Cons)
  have del: "bget b k = None \<Longrightarrow> bdelete k b = b"
    by (auto simp: bget_None_iff bdelete_def filter_id_conv)
  have pos: "bget b k \<noteq> None \<Longrightarrow> prefix p k \<Longrightarrow> 0 < count_prefix p b"
    by (auto simp: bget_None_iff count_prefix_def filter_empty_conv)
  show ?case
  proof (cases "k = k1")
    case True
    then show ?thesis using nk del unfolding a
      by (simp add: bdelete_def count_prefix_def bget_def)
  next
    case False
    then show ?thesis using Cons pos unfolding a
      by (auto simp: wf_bucket_Cons bdelete_def count_prefix_def bget_def)
  qed
qed

lemma count_prefix_pos: "bget b k \<noteq> None \<Longrightarrow> prefix p k \<Longrightarrow> 0 < count_prefix p b"
  by (auto simp: bget_None_iff count_prefix_def filter_empty_conv)

lemma count_prefix_le: "count_prefix p b \<le> length b"
  by (simp add: count_prefix_def)

lemma Uint64_PutUint64_nil [simp]: "Uint64 (PutUint64 w) = w"
  using Uint64_PutUint64 [of w "[]"] by simp

lemma counters_ok_read:
  "counters_ok kv \<Longrightarrow> length ch < 65536 \<Longrightarrow>
   read_counter (meta kv) (counter_prefix @ getDelayedMsgDBPrefixKey dt ch) =
     of_nat (count_prefix (getDelayedMsgDBPrefixKey dt ch) (delayed_message kv))"
proof -
  assume c: "counters_ok kv" and s: "length ch < 65536"
  let ?p = "getDelayedMsgDBPrefixKey dt ch"
  have "counter_cell_ok (bget (meta kv) (counter_prefix @ ?p)) (count_prefix ?p (delayed_message kv))"
    using c s unfolding counters_ok_def by blast
  then show ?thesis
    unfolding read_counter_def counter_cell_ok_def
    by (cases "bget (meta kv) (counter_prefix @ ?p)") auto
qed

lemma prefix_key_of:
  "length (DelayedChannel m) < 65536 \<Longrightarrow> length ch < 65536 \<Longrightarrow>
   prefix (getDelayedMsgDBPrefixKey dt ch) (key_of m) \<longleftrightarrow> getDelayedMsgDBPrefixKey dt ch = prefix_of m"
  unfolding key_of_def prefix_of_def by (rule prefix_getKey_iff)

lemma synced_neq_counter [simp]:
  "syncedOffsetKey \<noteq> counter_prefix @ x" "counter_prefix @ x \<noteq> syncedOffsetKey"
  by (auto simp: syncedOffsetKey_def counter_prefix_def)

lemma put_tx_primary:
  "delayed_message (fst (put_tx (\<lambda>k. True) m off tx)) =
     (if bget (delayed_message tx) (key_of m) = Some m then delayed_message tx
      else bput (key_of m) m (delayed_message tx))"
  by (auto simp: put_tx_def Let_def key_of_def deleteMsgIndex_def split: option.splits)

lemma put_tx_meta:
  "meta (fst (put_tx (\<lambda>k. True) m off tx)) =
     bput syncedOffsetKey (Itoa off)
       (if bget (delayed_message tx) (key_of m) = None
        then bput (counter_prefix @ prefix_of m)
               (PutUint64 (read_counter (meta tx) (counter_prefix @ prefix_of m) + 1)) (meta tx)
        else meta tx)"
  by (auto simp: put_tx_def Let_def key_of_def prefix_of_def deleteMsgIndex_def split: option.splits)

lemma put_tx_index_wf:
  "wf_bucket (delayed_message_index tx) \<Longrightarrow> wf_bucket (delayed_message_index (fst (put_tx (\<lambda>k. True) m off tx)))"
  by (auto simp: put_tx_def Let_def deleteMsgIndex_def wf_bput wf_bdelete split: option.splits)

lemma put_tx_store_wf:
  assumes "store_wf tx" and "length (DelayedChannel m) < 65536"
  shows "store_wf (fst (put_tx (\<lambda>k. True) m off tx))"
proof -
  have a: "wf_bucket (delayed_message (fst (put_tx (\<lambda>k. True) m off tx)))"
    using assms by (simp add: put_tx_primary store_wf_def wf_bput)
  have b: "wf_bucket (meta (fst (put_tx (\<lambda>k. True) m off tx)))"
    using assms by (simp add: put_tx_meta store_wf_def wf_bput)
  have c: "\<forall>(k, m') \<in> set (delayed_message (fst (put_tx (\<lambda>k. True) m off tx))).
             k = key_of m' \<and> length (DelayedChannel m') < 65536"
    using assms by (auto simp: put_tx_primary store_wf_def set_bput)
  show ?thesis using a b c assms put_tx_index_wf [of tx m off] by (simp add: store_wf_def)
qed

lemma put_tx_length:
  "length (delayed_message (fst (put_tx (\<lambda>k. True) m off tx))) \<le> Suc (length (delayed_message tx))"
  by (simp add: put_tx_primary length_bput)

lemma put_tx_counters:
  assumes w: "store_wf tx" and c: "counters_ok tx" and l: "length (DelayedChannel m) < 65536"
  shows "counters_ok (fst (put_tx (\<lambda>k. True) m off tx))"
  unfolding counters_ok_def
proof (intro allI impI)
  fix dt ch
  assume s: "length (ch :: bytes) < 65536"
  let ?p = "getDelayedMsgDBPrefixKey dt ch"
  let ?tx' = "fst (put_tx (\<lambda>k. True) m off tx)"
  have wm: "wf_bucket (meta tx)" and wp: "wf_bucket (delayed_message tx)"
    using w by (auto simp: store_wf_def)
  have old: "counter_cell_ok (bget (meta tx) (counter_prefix @ ?p)) (count_prefix ?p (delayed_message tx))"
    using c s unfolding counters_ok_def by blast
  show "counter_cell_ok (bget (meta ?tx') (counter_prefix @ ?p)) (count_prefix ?p (delayed_message ?tx'))"
  proof (cases "bget (delayed_message tx) (key_of m) = None")
    case True
    have prim: "delayed_message ?tx' = bput (key_of m) m (delayed_message tx)"
      using True by (simp add: put_tx_primary)
    have cnt: "count_prefix ?p (delayed_message ?tx') =
                 (if ?p = prefix_of m then Suc (count_prefix ?p (delayed_message tx))
                  else count_prefix ?p (delayed_message tx))"
      using True wp l s by (simp add: prim count_prefix_bput prefix_key_of)
    have met: "bget (meta ?tx') (counter_prefix @ ?p) =
                 (if ?p = prefix_of m
                  then Some (PutUint64 (read_counter (meta tx) (counter_prefix @ prefix_of m) + 1))
                  else bget (meta tx) (counter_prefix @ ?p))"
      using True wm by (simp add: put_tx_meta bget_bput wf_bput)
    show ?thesis
    proof (cases "?p = prefix_of m")
      case True
      have rc: "read_counter (meta tx) (counter_prefix @ ?p) = of_nat (count_prefix ?p (delayed_message tx))"
        using c s by (rule counters_ok_read)
      show ?thesis by (simp add: met cnt True [symmetric] rc counter_cell_ok_def)
    next
      case False
      then show ?thesis using old by (simp add: met cnt)
    qed
  next
    case False
    have prim: "count_prefix ?p (delayed_message ?tx') = count_prefix ?p (delayed_message tx)"
      using False wp by (auto simp: put_tx_primary count_prefix_bput)
    have met: "bget (meta ?tx') (counter_prefix @ ?p) = bget (meta tx) (counter_prefix @ ?p)"
      using False wm by (auto simp: put_tx_meta bget_bput)
    show ?thesis using old by (simp add: prim met)
  qed
qed

lemma of_nat64_neq_0:
  assumes "0 < n" and "n < 2 ^ 64"
  shows "(of_nat n :: int64) \<noteq> 0"
proof
  assume "(of_nat n :: int64) = 0"
  then have "2 ^ LENGTH(64) dvd n" by (simp only: word_of_nat_eq_0_iff)
  then have "(2 :: nat) ^ 64 dvd n" by simp
  then have "(2 :: nat) ^ 64 \<le> n" using assms(1) by (rule dvd_imp_le)
  with assms(2) show False by simp
qed

lemma bdelete_absent: "bget b k = None \<Longrightarrow> bdelete k b = b"
  unfolding bget_None_iff bdelete_def filter_id_conv by force

lemma deleteBucketKey_primary:
  "delayed_message (fst (deleteBucketKey dt ch ts ident tx)) =
     bdelete (getDelayedMsgDBKey dt ch ts ident) (delayed_message tx)"
  by (auto simp: deleteBucketKey_def Let_def deleteMsgIndex_def split: option.splits)

lemma deleteBucketKey_meta:
  "meta (fst (deleteBucketKey dt ch ts ident tx)) =
     (if bget (delayed_message tx) (getDelayedMsgDBKey dt ch ts ident) \<noteq> None \<and>
         read_counter (meta tx) (counter_prefix @ getDelayedMsgDBPrefixKey dt ch) \<noteq> 0
      then bput (counter_prefix @ getDelayedMsgDBPrefixKey dt ch)
             (PutUint64 (read_counter (meta tx) (counter_prefix @ getDelayedMsgDBPrefixKey dt ch) - 1))
             (meta tx)
      else meta tx)"
  by (auto simp: deleteBucketKey_def Let_def deleteMsgIndex_def split: option.splits)

lemma deleteBucketKey_index_wf:
  "wf_bucket (delayed_message_index tx) \<Longrightarrow>
   wf_bucket (delayed_message_index (fst (deleteBucketKey dt ch ts ident tx)))"
  by (auto simp: deleteBucketKey_def Let_def deleteMsgIndex_def wf_bdelete split: option.splits)

lemma deleteBucketKey_store_wf:
  assumes "store_wf tx"
  shows "store_wf (fst (deleteBucketKey dt ch ts ident tx))"
  using assms deleteBucketKey_index_wf [of tx dt ch ts ident]
  by (auto simp: store_wf_def deleteBucketKey_primary deleteBucketKey_meta wf_bdelete wf_bput)

lemma deleteBucketKey_length:
  "length (delayed_message (fst (deleteBucketKey dt ch ts ident tx))) \<le> length (delayed_message tx)"
  by (simp add: deleteBucketKey_primary length_bdelete)

lemma deleteBucketKey_counters:
  assumes w: "store_wf tx" and c: "counters_ok tx" and n: "length (delayed_message tx) < 2 ^ 64"
  shows "counters_ok (fst (deleteBucketKey dt ch ts ident tx))"
proof (cases "bget (delayed_message tx) (getDelayedMsgDBKey dt ch ts ident)")
  case None
  have "delayed_message (fst (deleteBucketKey dt ch ts ident tx)) = delayed_message tx"
    using None by (simp add: deleteBucketKey_primary bdelete_absent)
  moreover have "meta (fst (deleteBucketKey dt ch ts ident tx)) = meta tx"
    using None by (simp add: deleteBucketKey_meta)
  ultimately show ?thesis using c by (simp add: counters_ok_def)
next
  case (Some old)
  let ?k = "getDelayedMsgDBKey dt ch ts ident"
  let ?q = "getDelayedMsgDBPrefixKey dt ch"
  let ?tx' = "fst (deleteBucketKey dt ch ts ident tx)"
  have wm: "wf_bucket (meta tx)" and wp: "wf_bucket (delayed_message tx)"
    using w by (auto simp: store_wf_def)
  have mem: "(?k, old) \<in> set (delayed_message tx)" using Some wp by (simp add: bget_Some_iff)
  then have ko: "?k = key_of old" and lo: "length (DelayedChannel old) < 65536"
    using w by (auto simp: store_wf_def)
  have qo: "?q = prefix_of old"
    using ko getKey_eq_imp [of dt ch ts ident] by (simp add: key_of_def prefix_of_def)
  have lc: "length ch < 65536"
    using ko lo length_getKey [of dt ch ts ident] by (simp add: key_of_def)
  have pk: "prefix ?q ?k" by (simp add: getKey_split)
  have pos: "0 < count_prefix ?q (delayed_message tx)"
    using Some pk by (intro count_prefix_pos) auto
  have lt: "count_prefix ?q (delayed_message tx) < 2 ^ 64"
    using count_prefix_le [of ?q "delayed_message tx"] n by simp
  have rc: "read_counter (meta tx) (counter_prefix @ ?q) = of_nat (count_prefix ?q (delayed_message tx))"
    using c lc by (rule counters_ok_read)
  have nz: "read_counter (meta tx) (counter_prefix @ ?q) \<noteq> 0"
    unfolding rc using pos lt by (rule of_nat64_neq_0)
  have met: "meta ?tx' = bput (counter_prefix @ ?q)
               (PutUint64 (of_nat (count_prefix ?q (delayed_message tx)) - 1)) (meta tx)"
    using Some nz by (simp add: deleteBucketKey_meta rc)
  have dec: "(of_nat (count_prefix ?q (delayed_message tx)) :: int64) - 1 =
             of_nat (count_prefix ?q (delayed_message tx) - 1)"
    using pos by (simp add: of_nat_diff)
  show ?thesis
    unfolding counters_ok_def
  proof (intro allI impI)
    fix dt' ch'
    assume s: "length (ch' :: bytes) < 65536"
    let ?p = "getDelayedMsgDBPrefixKey dt' ch'"
    have old: "counter_cell_ok (bget (meta tx) (counter_prefix @ ?p)) (count_prefix ?p (delayed_message tx))"
      using c s unfolding counters_ok_def by blast
    have pp: "prefix ?p ?k \<longleftrightarrow> ?p = ?q"
      unfolding ko qo using lo s by (rule prefix_key_of)
    have cnt: "count_prefix ?p (delayed_message ?tx') =
                 (if ?p = ?q then count_prefix ?p (delayed_message tx) - 1
                  else count_prefix ?p (delayed_message tx))"
      using Some wp pp by (simp add: deleteBucketKey_primary count_prefix_bdelete)
    have cell: "bget (meta ?tx') (counter_prefix @ ?p) =
                 (if ?p = ?q then Some (PutUint64 (of_nat (count_prefix ?q (delayed_message tx) - 1)))
                  else bget (meta tx) (counter_prefix @ ?p))"
      using wm by (simp add: met bget_bput dec)
    show "counter_cell_ok (bget (meta ?tx') (counter_prefix @ ?p)) (count_prefix ?p (delayed_message ?tx'))"
    proof (cases "?p = ?q")
      case True
      show ?thesis unfolding cell cnt using True by (simp add: counter_cell_ok_def)
    next
      case False
      show ?thesis unfolding cell cnt using False old by simp
    qed
  qed
qed

section \<open>The store invariant along operations\<close>

text \<open>
  A put transaction fails only with the error of \<open>Bucket.Put\<close>. When it succeeds it has
  written what it writes when every key is accepted, and the keys it wrote were
  accepted.
\<close>

lemma put_tx_err: "snd (put_tx ok m off tx) = Some e \<Longrightarrow> e = ErrBucketPut"
  by (auto simp: put_tx_def Let_def split: if_splits option.splits)

lemma put_tx_accepted:
  assumes "snd (put_tx ok m off tx) = None"
  shows "fst (put_tx ok m off tx) = fst (put_tx (\<lambda>k. True) m off tx)"
    and "bget (delayed_message tx) (key_of m) = Some m \<or> ok (key_of m)"
    and "bget (delayed_message tx) (key_of m) = None \<Longrightarrow> ok (counter_prefix @ prefix_of m)"
  using assms
  by (auto simp: put_tx_def Let_def key_of_def prefix_of_def split: if_splits option.splits)

lemma put_tx_all_ok:
  assumes "ok (key_of m)" and "ok (index_key_of m)" and "ok (counter_prefix @ prefix_of m)"
    and "ok syncedOffsetKey"
  shows "snd (put_tx ok m off tx) = None"
  using assms
  by (auto simp: put_tx_def Let_def key_of_def prefix_of_def index_key_of_def split: option.splits)

lemma Update_put_tx_env:
  "Update (put_tx ok m off) kv =
     (if snd (put_tx ok m off kv) = None then (fst (put_tx (\<lambda>k. True) m off kv), None)
      else (kv, Some ErrBucketPut))"
proof (cases "snd (put_tx ok m off kv)")
  case None
  then show ?thesis
    using put_tx_accepted(1) [OF None] by (cases "put_tx ok m off kv") (auto simp: Update_def)
next
  case (Some e)
  then show ?thesis
    using put_tx_err [OF Some] by (cases "put_tx ok m off kv") (auto simp: Update_def)
qed

lemma put_store_err:
  "put_store env q m off wb dend = (q', i, off', wb', dend', Some e) \<Longrightarrow> e = ErrBucketPut"
  by (auto simp: put_store_def Update_put_tx_env Let_def split: if_splits)

lemma put_None_err:
  "put cd env q m None cs = (q', i, off, wb, dend, Some e) \<Longrightarrow>
     e = ErrIO \<or> e = ErrInvalidWriteSize \<or> e = ErrExiting \<or> e = ErrSizeMismatch \<or> e = ErrBucketPut"
  by (auto simp: put_def writeDelayedMessageToBackendWithCheck_def Let_def
        split: if_splits prod.splits option.splits dest: PutV2_err put_store_err)

lemma length_key_of [simp]: "length (key_of m) = 21 + length (DelayedChannel m)"
  by (simp add: key_of_def)

lemma length_prefix_of [simp]: "length (prefix_of m) = 5 + length (DelayedChannel m)"
  by (simp add: prefix_of_def)

lemma length_fixed_keys [simp]: "length syncedOffsetKey = 13" "length counter_prefix = 8"
  by (simp_all add: syncedOffsetKey_def counter_prefix_def)

lemma set_bput_sub: "set (bput k v b) \<subseteq> insert (k, v) (set b)"
proof (induction b)
  case Nil
  then show ?case by simp
next
  case (Cons a b)
  obtain k1 v1 where a: "a = (k1, v1)" by (cases a)
  show ?case using Cons.IH unfolding a by (auto split: if_splits)
qed

lemma keys_bounded_delete:
  assumes "keys_bounded tx"
  shows "keys_bounded (fst (deleteBucketKey dt ch ts ident tx))"
proof (cases "bget (delayed_message tx) (getDelayedMsgDBKey dt ch ts ident)")
  case None
  then show ?thesis
    using assms by (auto simp: keys_bounded_def deleteBucketKey_primary deleteBucketKey_meta)
next
  case (Some old)
  then have "(getDelayedMsgDBKey dt ch ts ident, old) \<in> set (delayed_message tx)"
    by (auto simp: bget_def dest: map_of_SomeD)
  then have "length (getDelayedMsgDBKey dt ch ts ident) < 65536"
    using assms unfolding keys_bounded_def by fastforce
  then have c: "length (counter_prefix @ getDelayedMsgDBPrefixKey dt ch) < 65536" by simp
  have p: "\<forall>kv' \<in> set (delayed_message (fst (deleteBucketKey dt ch ts ident tx))). length (fst kv') < 65536"
    using assms unfolding keys_bounded_def deleteBucketKey_primary by auto
  have "set (meta (fst (deleteBucketKey dt ch ts ident tx))) \<subseteq>
          insert (counter_prefix @ getDelayedMsgDBPrefixKey dt ch,
                  PutUint64 (read_counter (meta tx) (counter_prefix @ getDelayedMsgDBPrefixKey dt ch) - 1))
            (set (meta tx))"
    unfolding deleteBucketKey_meta
    using set_bput_sub [of "counter_prefix @ getDelayedMsgDBPrefixKey dt ch" _ "meta tx"]
    by (auto split: if_splits)
  then have "\<forall>kv' \<in> set (meta (fst (deleteBucketKey dt ch ts ident tx))). length (fst kv') < 65536"
    using assms c unfolding keys_bounded_def by fastforce
  then show ?thesis using p by (simp add: keys_bounded_def)
qed

lemma keys_bounded_put:
  assumes "keys_bounded tx" and l: "length (key_of m) < 65536"
  shows "keys_bounded (fst (put_tx (\<lambda>k. True) m off tx))"
proof -
  have c: "length (counter_prefix @ prefix_of m) < 65536" using l by simp
  have p: "\<forall>kv' \<in> set (delayed_message (fst (put_tx (\<lambda>k. True) m off tx))). length (fst kv') < 65536"
    using assms set_bput_sub [of "key_of m" m "delayed_message tx"]
    unfolding keys_bounded_def put_tx_primary by (auto split: if_splits)
  have "set (meta (fst (put_tx (\<lambda>k. True) m off tx))) \<subseteq>
          insert (syncedOffsetKey, Itoa off)
            (insert (counter_prefix @ prefix_of m,
                     PutUint64 (read_counter (meta tx) (counter_prefix @ prefix_of m) + 1)) (set (meta tx)))"
    unfolding put_tx_meta
    using set_bput_sub [of syncedOffsetKey "Itoa off"]
      set_bput_sub [of "counter_prefix @ prefix_of m" _ "meta tx"]
    by (auto split: if_splits)
  then have "\<forall>kv' \<in> set (meta (fst (put_tx (\<lambda>k. True) m off tx))). length (fst kv') < 65536"
    using assms(1) c unfolding keys_bounded_def by fastforce
  then show ?thesis using p by (simp add: keys_bounded_def)
qed

lemma kv_inv_delete:
  "kv_inv n tx \<Longrightarrow> n < 2 ^ 64 \<Longrightarrow> kv_inv n (fst (deleteBucketKey dt ch ts ident tx))"
  unfolding kv_inv_def
  using deleteBucketKey_store_wf [of tx dt ch ts ident] deleteBucketKey_counters [of tx dt ch ts ident]
    deleteBucketKey_length [of dt ch ts ident tx] keys_bounded_delete [of tx dt ch ts ident]
  by auto

lemma kv_inv_put:
  "kv_inv n tx \<Longrightarrow> length (key_of m) < 65536 \<Longrightarrow> kv_inv (Suc n) (fst (put_tx (\<lambda>k. True) m off tx))"
  unfolding kv_inv_def
  using put_tx_store_wf [of tx m off] put_tx_counters [of tx m off] put_tx_length [of m off tx]
    keys_bounded_put [of tx m off]
  by auto

lemma kv_inv_mono: "kv_inv n kv \<Longrightarrow> n \<le> n' \<Longrightarrow> kv_inv n' kv"
  by (auto simp: kv_inv_def)

text \<open>What every deletion preserves, the emptying loops preserve.\<close>

lemma until_loop_pres:
  assumes d: "\<And>dt ch ts i tx. Q tx \<Longrightarrow> Q (fst (deleteBucketKey dt ch ts i tx))"
  shows "Q tx \<Longrightarrow> Q (fst (until_loop tm dt peekTs ident ch pfx es tx b))"
proof (induction es arbitrary: tx b)
  case Nil
  then show ?case by simp
next
  case (Cons e es)
  obtain k v where e: "e = (k, v)" by (cases e)
  have d': "\<And>ts i x1 err. deleteBucketKey dt ch ts i tx = (x1, err) \<Longrightarrow> Q x1"
    using d [OF Cons.prems] by (metis fst_conv)
  show ?case unfolding e using Cons.prems Cons.IH d'
    by (auto split: sum.splits prod.splits option.splits simp: Let_def)
qed

lemma all_loop_pres:
  assumes d: "\<And>dt ch ts i tx. Q tx \<Longrightarrow> Q (fst (deleteBucketKey dt ch ts i tx))"
  shows "Q tx \<Longrightarrow> Q (fst (all_loop tm dt ch pfx es tx b))"
proof (induction es arbitrary: tx b)
  case Nil
  then show ?case by simp
next
  case (Cons e es)
  obtain k v where e: "e = (k, v)" by (cases e)
  have d': "\<And>dt' ch' ts i x1 err. deleteBucketKey dt' ch' ts i tx = (x1, err) \<Longrightarrow> Q x1"
    using d [OF Cons.prems] by (metis fst_conv)
  show ?case unfolding e using Cons.prems Cons.IH d'
    by (auto split: sum.splits prod.splits option.splits simp: Let_def)
qed

lemma until_pass_pres:
  assumes d: "\<And>dt ch ts i tx. Q tx \<Longrightarrow> Q (fst (deleteBucketKey dt ch ts i tx))" and q: "Q db"
  shows "Q (fst (until_pass tm dt peekTs ident ch db))"
  using until_loop_pres [of Q db tm dt peekTs ident ch "getDelayedMsgDBPrefixKey dt ch"
      "seek (getDelayedMsgDBPrefixKey dt ch) (delayed_message db)" 0, OF d q] q
  by (auto simp: until_pass_def Let_def split: prod.splits option.splits)

lemma all_pass_pres:
  assumes d: "\<And>dt ch ts i tx. Q tx \<Longrightarrow> Q (fst (deleteBucketKey dt ch ts i tx))" and q: "Q db"
  shows "Q (fst (all_pass tm dt ch db))"
  using all_loop_pres [of Q db tm dt ch "getDelayedMsgDBPrefixKey dt ch"
      "seek (getDelayedMsgDBPrefixKey dt ch) (delayed_message db)" 0, OF d q] q
  by (auto simp: all_pass_def Let_def split: prod.splits option.splits)

lemma until_passes_pres:
  assumes d: "\<And>dt ch ts i tx. Q tx \<Longrightarrow> Q (fst (deleteBucketKey dt ch ts i tx))"
    and r: "until_passes tm dt peekTs ident ch db = Some y"
  shows "Q db \<longrightarrow> Q (fst y)"
proof (rule until_passes.raw_induct
    [where P = "\<lambda>tm dt peekTs ident ch db y. Q db \<longrightarrow> Q (fst y)", OF _ r])
  fix f tm dt peekTs ident ch db y
  assume IH: "\<And>tm dt peekTs ident ch db y. f tm dt peekTs ident ch db = Some y \<Longrightarrow> Q db \<longrightarrow> Q (fst y)"
    and h: "(case until_pass tm dt peekTs ident ch db of
              (db', batched, None) \<Rightarrow>
                if batched = 0 then Some (db', None) else f tm dt peekTs ident ch db'
            | (db', batched, Some e) \<Rightarrow> Some (db', Some e)) = Some y"
  show "Q db \<longrightarrow> Q (fst y)"
  proof
    assume i: "Q db"
    obtain db' b e where p: "until_pass tm dt peekTs ident ch db = (db', b, e)" by (metis prod_cases3)
    have i': "Q db'" using until_pass_pres [of Q db tm dt peekTs ident ch, OF d i] p by simp
    show "Q (fst y)"
    proof (cases e)
      case (Some x)
      then show ?thesis using h p i' by auto
    next
      case None
      show ?thesis
      proof (cases "b = 0")
        case True
        then show ?thesis using h p i' None by auto
      next
        case False
        then have "f tm dt peekTs ident ch db' = Some y" using h p None by simp
        then show ?thesis using IH i' by blast
      qed
    qed
  qed
qed

lemma all_passes_pres:
  assumes d: "\<And>dt ch ts i tx. Q tx \<Longrightarrow> Q (fst (deleteBucketKey dt ch ts i tx))"
    and r: "all_passes tm dt ch db = Some y"
  shows "Q db \<longrightarrow> Q (fst y)"
proof (rule all_passes.raw_induct
    [where P = "\<lambda>tm dt ch db y. Q db \<longrightarrow> Q (fst y)", OF _ r])
  fix f tm dt ch db y
  assume IH: "\<And>tm dt ch db y. f tm dt ch db = Some y \<Longrightarrow> Q db \<longrightarrow> Q (fst y)"
    and h: "(case all_pass tm dt ch db of
              (db', batched, None) \<Rightarrow>
                if batched = 0 then Some (db', None) else f tm dt ch db'
            | (db', batched, Some e) \<Rightarrow> Some (db', Some e)) = Some y"
  show "Q db \<longrightarrow> Q (fst y)"
  proof
    assume i: "Q db"
    obtain db' b e where p: "all_pass tm dt ch db = (db', b, e)" by (metis prod_cases3)
    have i': "Q db'" using all_pass_pres [of Q db tm dt ch, OF d i] p by simp
    show "Q (fst y)"
    proof (cases e)
      case (Some x)
      then show ?thesis using h p i' by auto
    next
      case None
      show ?thesis
      proof (cases "b = 0")
        case True
        then show ?thesis using h p i' None by auto
      next
        case False
        then have "f tm dt ch db' = Some y" using h p None by simp
        then show ?thesis using IH i' by blast
      qed
    qed
  qed
qed

lemma flush_kvStore [simp]: "kvStore (fst (flush env q)) = kvStore q"
  by (auto simp: flush_def Let_def split: prod.splits)

lemma Reset_kvStore [simp]: "kvStore (fst (ResetBackendEndNoLock env q v t)) = kvStore q"
  by (auto simp: ResetBackendEndNoLock_def Let_def split: prod.splits)

lemma put_store_kvStore:
  "kvStore (fst (put_store env q m off wb dend)) =
     (if snd (put_tx (kv_put_ok env) m (virtualEnd dend) (kvStore q)) = None
      then fst (put_tx (\<lambda>k. True) m (virtualEnd dend) (kvStore q)) else kvStore q)"
  by (auto simp: put_store_def Update_put_tx_env Let_def split: option.splits)

lemma nextMsgID_kvStore [simp]: "kvStore (fst (nextMsgID env q)) = kvStore q"
  by (simp add: nextMsgID_def split: option.splits)

lemma assign_id_channel [simp]: "DelayedChannel (assign_id env q m) = DelayedChannel m"
  by (simp add: assign_id_def)

text \<open>The store after \<open>put\<close>: as before, or after the writes of \<open>put_tx\<close> for the message stored.\<close>

lemma put_kvStore_None:
  "kvStore (fst (put cd env q m0 None cs)) = kvStore q \<or>
   (\<exists>off. snd (put_tx (kv_put_ok env) (assign_id env q m0) off (kvStore q)) = None \<and>
      kvStore (fst (put cd env q m0 None cs)) = fst (put_tx (\<lambda>k. True) (assign_id env q m0) off (kvStore q)))"
proof -
  define qa where "qa = (if ID m0 \<le>s 0 then fst (nextMsgID env q) else q)"
  define m where "m = assign_id env q m0"
  have k: "kvStore qa = kvStore q" by (simp add: qa_def)
  obtain b' off wb dend err where
    w: "writeDelayedMessageToBackendWithCheck cd (io_put env) m cs (backend qa) = (b', off, wb, dend, err)"
    by (metis prod_cases5)
  have p: "put cd env q m0 None cs =
            (case err of
               Some e \<Rightarrow> (qa\<lparr>backend := b', needFlush := True\<rparr>, ID m, off, wb, dend, Some e)
             | None \<Rightarrow> put_store env (qa\<lparr>backend := b', needFlush := True\<rparr>) m off wb dend)"
    using w
    by (cases "ID m0 \<le>s 0")
      (auto simp: put_def qa_def m_def assign_id_def Let_def split: prod.splits option.splits)
  show ?thesis
  proof (cases err)
    case None
    then have "kvStore (fst (put cd env q m0 None cs)) =
        (if snd (put_tx (kv_put_ok env) m (virtualEnd dend) (kvStore q)) = None
         then fst (put_tx (\<lambda>k. True) m (virtualEnd dend) (kvStore q)) else kvStore q)"
      using p k by (simp add: put_store_kvStore)
    then show ?thesis unfolding m_def by (cases "snd (put_tx (kv_put_ok env) (assign_id env q m0) (virtualEnd dend) (kvStore q)) = None") auto
  next
    case (Some e)
    then show ?thesis using p k by simp
  qed
qed

lemma put_kvStore_raw:
  "kvStore (fst (put cd env q m0 (Some raw) cs)) = kvStore q \<or>
   (\<exists>dm off. snd (put_tx (kv_put_ok env) (assign_id env q dm) off (kvStore q)) = None \<and>
      kvStore (fst (put cd env q m0 (Some raw) cs)) =
        fst (put_tx (\<lambda>k. True) (assign_id env q dm) off (kvStore q)) \<and>
      \<not> length raw < 4 \<and> DecodeDelayedMessage cd (drop 4 raw) = Some dm)"
proof (cases "length raw < 4")
  case True
  then show ?thesis by (simp add: put_def)
next
  case False
  show ?thesis
  proof (cases "DecodeDelayedMessage cd (drop 4 raw)")
    case None
    then show ?thesis using False by (simp add: put_def)
  next
    case (Some dm)
    define qa where "qa = (if ID dm \<le>s 0 then fst (nextMsgID env q) else q)"
    define m where "m = assign_id env q dm"
    have k: "kvStore qa = kvStore q" by (simp add: qa_def)
    obtain b' off wb dend err where
      w: "PutRawV2 (io_put env) (backend qa) (length raw) 1 = (b', off, wb, dend, err)"
      by (metis prod_cases5)
    have p: "put cd env q m0 (Some raw) cs =
              (if 0 <s cs \<and> cs \<noteq> scast wb then (qa\<lparr>backend := b'\<rparr>, 0, 0, 0, dend, err)
               else put_store env (qa\<lparr>backend := b', needFlush := True\<rparr>) m off wb dend)"
      using w False Some
      by (cases "ID dm \<le>s 0")
        (auto simp: put_def qa_def m_def assign_id_def Let_def split: prod.splits option.splits)
    show ?thesis
    proof (cases "0 <s cs \<and> cs \<noteq> scast wb")
      case True
      then show ?thesis using p k by simp
    next
      case c: False
      then have "put cd env q m0 (Some raw) cs =
                   put_store env (qa\<lparr>backend := b', needFlush := True\<rparr>) m off wb dend"
        using p by auto
      then have "kvStore (fst (put cd env q m0 (Some raw) cs)) =
          (if snd (put_tx (kv_put_ok env) m (virtualEnd dend) (kvStore q)) = None
           then fst (put_tx (\<lambda>k. True) m (virtualEnd dend) (kvStore q)) else kvStore q)"
        using k by (simp add: put_store_kvStore)
      then show ?thesis using Some False unfolding m_def
        by (cases "snd (put_tx (kv_put_ok env) (assign_id env q dm) (virtualEnd dend) (kvStore q)) = None") auto
    qed
  qed
qed

text \<open>The store after an operation that puts: unchanged, or written for \<open>stored_msg\<close>.\<close>

lemma put_op_kvStore:
  assumes "apply_op cd tm q x = Some q'" and "stored_msg cd q x = Some m"
  shows "kvStore q' = kvStore q \<or>
         (\<exists>off. snd (put_tx (put_ok_of x) m off (kvStore q)) = None \<and>
                kvStore q' = fst (put_tx (\<lambda>k. True) m off (kvStore q)))"
proof (cases x)
  case (PutOp env m0)
  show ?thesis using assms put_kvStore_None [of cd env q m0 0] unfolding PutOp
    by (auto simp: PutDelayMessage_def split: prod.splits if_splits)
next
  case (PutRawOp env raw off cs num)
  let ?z = "\<lparr>ID = 0, TraceID = 0, Body = [], Timestamp = 0, DelayedType = 0,
             DelayedTs = 0, DelayedOrigID = 0, DelayedChannel = []\<rparr>"
  obtain x1 r where pr: "put cd env q ?z raw cs = (x1, r)" by (cases "put cd env q ?z raw cs")
  have k: "kvStore x1 = kvStore q \<or>
           (\<exists>off. snd (put_tx (kv_put_ok env) m off (kvStore q)) = None \<and>
                  kvStore x1 = fst (put_tx (\<lambda>k. True) m off (kvStore q)))"
  proof (cases raw)
    case None
    then have "m = assign_id env q ?z" using assms(2) unfolding PutRawOp by simp
    then show ?thesis using put_kvStore_None [of cd env q ?z cs] pr None by auto
  next
    case (Some rw)
    then have sm: "\<not> length rw < 4"
      "\<exists>dm. DecodeDelayedMessage cd (drop 4 rw) = Some dm \<and> m = assign_id env q dm"
      using assms(2) unfolding PutRawOp by (auto split: if_splits)
    then show ?thesis using put_kvStore_raw [of cd env q ?z rw cs] pr Some by auto
  qed
  have "kvStore q' = kvStore q \<or> kvStore q' = kvStore x1"
    using assms(1) pr unfolding PutRawOp
    by (auto simp: PutRawDataOnReplica_def Let_def split: prod.splits if_splits option.splits)
  then show ?thesis using k unfolding PutRawOp by auto
next
  case (PutReplicaOp env m0 off cs)
  show ?thesis using assms put_kvStore_None [of cd env q m0 cs] unfolding PutReplicaOp
    by (auto simp: PutMessageOnReplica_def Let_def split: prod.splits if_splits option.splits)
next
  case (ConfirmOp m0)
  then show ?thesis using assms by simp
next
  case (EmptyUntilOp dt ts ident ch)
  then show ?thesis using assms by simp
next
  case (EmptyAllOp now dt ch)
  then show ?thesis using assms by simp
qed

text \<open>The store after an operation that does not put: unchanged, or after deletions.\<close>

lemma delete_op_pres:
  assumes d: "\<And>dt ch ts i tx. Q tx \<Longrightarrow> Q (fst (deleteBucketKey dt ch ts i tx))"
    and a: "apply_op cd tm q x = Some q'" and s: "stored_msg cd q x = None" and i: "Q (kvStore q)"
  shows "Q (kvStore q')"
proof (cases x)
  case (PutOp env m0)
  then show ?thesis using s by simp
next
  case (PutRawOp env raw off cs num)
  obtain rw where rw: "raw = Some rw" using s unfolding PutRawOp by (cases raw) auto
  have "kvStore (fst (put cd env q m0 (Some rw) cs)) = kvStore q" for m0
    using put_kvStore_raw [of cd env q m0 rw cs] s unfolding PutRawOp rw
    by (auto split: if_splits)
  then have "\<And>m0 x1 r. put cd env q m0 (Some rw) cs = (x1, r) \<Longrightarrow> kvStore x1 = kvStore q"
    by (metis fst_conv)
  then show ?thesis using a i unfolding PutRawOp rw
    by (auto simp: PutRawDataOnReplica_def Let_def split: prod.splits if_splits option.splits)
next
  case (PutReplicaOp env m0 off cs)
  then show ?thesis using s by simp
next
  case (ConfirmOp m)
  have "Q (fst (deleteBucketKey (scast (DelayedType m)) (DelayedChannel m) (DelayedTs m)
                        (DelayedOrigID m) (kvStore q)))"
    using i by (rule d)
  then show ?thesis using a i ConfirmOp
    by (auto simp: ConfirmedMessage_def Update_def split: prod.splits option.splits)
next
  case (EmptyUntilOp dt ts ident ch)
  then obtain y where y: "until_passes tm dt ts ident ch (kvStore q) = Some y"
    using a by (auto simp: emptyDelayedUntil_def split: option.splits)
  have "Q (fst y)" using until_passes_pres [of Q, OF d y] i by blast
  then show ?thesis using a y EmptyUntilOp
    by (auto simp: emptyDelayedUntil_def Let_def split: option.splits prod.splits)
next
  case (EmptyAllOp now dt ch)
  then obtain y where y: "all_passes tm dt ch (kvStore q) = Some y"
    using a by (auto simp: emptyAllDelayedType_def split: option.splits)
  have "Q (fst y)" using all_passes_pres [of Q, OF d y] i by blast
  then show ?thesis using a y EmptyAllOp
    by (auto simp: emptyAllDelayedType_def Let_def split: option.splits prod.splits)
qed

lemma put_tx_index:
  "delayed_message_index (fst (put_tx (\<lambda>k. True) m off tx)) =
     (case bget (delayed_message tx) (key_of m) of
        None \<Rightarrow> bput (index_key_of m) (index_value_of m) (delayed_message_index tx)
      | Some old \<Rightarrow>
          if old = m then delayed_message_index tx
          else bput (index_key_of m) (index_value_of m)
                 (bdelete (index_key_of old) (delayed_message_index tx)))"
  by (auto simp: put_tx_def Let_def key_of_def index_key_of_def index_value_of_def deleteMsgIndex_def
      split: option.splits)

lemma wf_unique: "wf_bucket b \<Longrightarrow> (k, v) \<in> set b \<Longrightarrow> (k, v') \<in> set b \<Longrightarrow> v = v'"
  by (metis bget_Some_iff option.inject)









lemma deleteBucketKey_index:
  "delayed_message_index (fst (deleteBucketKey dt ch ts ident tx)) =
     (case bget (delayed_message tx) (getDelayedMsgDBKey dt ch ts ident) of
        None \<Rightarrow> delayed_message_index tx
      | Some old \<Rightarrow> bdelete (index_key_of old) (delayed_message_index tx))"
  by (auto simp: deleteBucketKey_def Let_def deleteMsgIndex_def index_key_of_def split: option.splits)


lemma apply_op_inv:
  assumes i: "kv_inv n (kvStore q)" and s: "key_limited x" and n: "n < 2 ^ 64"
    and a: "apply_op cd tm q x = Some q'"
  shows "kv_inv (Suc n) (kvStore q')"
proof (cases "stored_msg cd q x")
  case None
  have "kv_inv n (kvStore q')"
    using kv_inv_delete [OF _ n] a None i by (rule delete_op_pres [of "kv_inv n"])
  then show ?thesis by (rule kv_inv_mono) simp
next
  case (Some m)
  from put_op_kvStore [OF a Some] show ?thesis
  proof
    assume "kvStore q' = kvStore q"
    then show ?thesis using i by (auto intro: kv_inv_mono)
  next
    assume "\<exists>off. snd (put_tx (put_ok_of x) m off (kvStore q)) = None \<and>
                  kvStore q' = fst (put_tx (\<lambda>k. True) m off (kvStore q))"
    then obtain off where ok: "snd (put_tx (put_ok_of x) m off (kvStore q)) = None"
      and k: "kvStore q' = fst (put_tx (\<lambda>k. True) m off (kvStore q))"
      by blast
    have l: "length (key_of m) < 65536"
    proof (cases "bget (delayed_message (kvStore q)) (key_of m) = Some m")
      case True
      then have "(key_of m, m) \<in> set (delayed_message (kvStore q))"
        by (auto simp: bget_def dest: map_of_SomeD)
      then show ?thesis using i unfolding kv_inv_def keys_bounded_def by fastforce
    next
      case False
      then have "put_ok_of x (key_of m)" using put_tx_accepted(2) [OF ok] by simp
      then show ?thesis using s unfolding key_limited_def by blast
    qed
    show ?thesis unfolding k using i l by (rule kv_inv_put)
  qed
qed

lemma run_inv:
  "kv_inv n (kvStore q) \<Longrightarrow> \<forall>x \<in> set ops. key_limited x \<Longrightarrow> n + length ops < 2 ^ 64 \<Longrightarrow>
   run cd tm q ops = Some q' \<Longrightarrow> kv_inv (n + length ops) (kvStore q')"
proof (induction ops arbitrary: n q)
  case Nil
  then show ?case by simp
next
  case (Cons x xs)
  obtain q1 where a: "apply_op cd tm q x = Some q1" and r: "run cd tm q1 xs = Some q'"
    using Cons.prems(4) by (auto split: option.splits)
  have n: "n < 2 ^ 64" using Cons.prems(3) by simp
  have i1: "kv_inv (Suc n) (kvStore q1)"
    using Cons.prems(1) _ n a by (rule apply_op_inv) (use Cons.prems(2) in simp)
  have "kv_inv (Suc n + length xs) (kvStore q')"
    using i1 _ _ r by (rule Cons.IH) (use Cons.prems in auto)
  then show ?case by simp
qed

section \<open>Counter consistency\<close>

lemma fresh_inv: "store_wf (kvStore fresh_queue)" "counters_ok (kvStore fresh_queue)"
  by (simp_all add: fresh_queue_def empty_store_def store_wf_def counters_ok_def counter_cell_ok_def
      bget_def count_prefix_def)

lemma fresh_bounded: "keys_bounded (kvStore fresh_queue)"
  by (simp add: fresh_queue_def empty_store_def keys_bounded_def)

lemma length_index_key_of [simp]: "length (index_key_of m) = 13 + length (DelayedChannel m)"
  by (simp add: index_key_of_def getIndexKey_split)

text \<open>The store of the examples accepts the keys of a message with a short channel name.\<close>

lemma Update_put_tx_example:
  assumes "length (DelayedChannel m) \<le> 1000"
  shows "Update (put_tx (\<lambda>k. length k \<le> 32768) m off) kv = (fst (put_tx (\<lambda>k. True) m off kv), None)"
proof -
  have "snd (put_tx (\<lambda>k. length k \<le> 32768) m off kv) = None"
    using assms by (intro put_tx_all_ok) simp_all
  then show ?thesis by (simp add: Update_put_tx_env)
qed

lemma ok_env_limited: "(\<forall>k. kv_put_ok ok_env k \<longrightarrow> length k < 65536)"
  by (simp add: ok_env_def)

lemmas eval_defs = PutDelayMessage_def put_def put_store_def Update_put_tx_example nextMsgID_def
      writeDelayedMessageToBackendWithCheck_def PutV2_def writeOne_def flush_def Flush_def sync_def
      fresh_queue_def fresh_writer_def ok_env_def ok_io_def example_codec_def chan_msg_def
      IsValidDelayedMessage_def zeroEndInfo_def Let_def word_sless_alt word_sle_eq

lemma put_tx_fresh:
  "fst (put_tx (\<lambda>k. True) (chan_msg 1 5 100) 44 empty_store) =
     \<lparr>delayed_message = [(key_of (chan_msg 1 5 100), chan_msg 1 5 100)],
      delayed_message_index = [(index_key_of (chan_msg 1 5 100), getDelayedMsgDBIndexValue 100 5)],
      meta = [(counter_prefix @ prefix_of (chan_msg 1 5 100), PutUint64 1), (syncedOffsetKey, Itoa 44)]\<rparr>"
  by (simp add: put_tx_def empty_store_def Let_def bget_def key_of_def index_key_of_def prefix_of_def
      read_counter_def chan_msg_def syncedOffsetKey_def counter_prefix_def)

text \<open>
  C1. Start from a store whose buckets are well formed, whose counters agree with its
  keys and whose keys have fewer than 65536 bytes (the empty store of a fresh engine is
  one), and run any list of \<open>PutDelayMessage\<close>, \<open>PutRawDataOnReplica\<close>,
  \<open>PutMessageOnReplica\<close>, \<open>ConfirmedMessage\<close>, \<open>emptyDelayedUntil\<close> and
  \<open>emptyAllDelayedType\<close> calls that return, successful or not, on a store that refuses
  keys of 65536 bytes or more, the store staying below \<open>2^64\<close> keys. Then for every type
  \<open>dt\<close> and every channel \<open>ch\<close>, \<open>GetCurrentDelayedCnt(dt, ch)\<close> is the number of keys of
  the \<open>delayed_message\<close> bucket that have the prefix of \<open>(dt, ch)\<close>.
\<close>

theorem counter_consistency:
  assumes "store_wf (kvStore q)" and "counters_ok (kvStore q)" and "keys_bounded (kvStore q)"
    and "\<forall>x \<in> set ops. key_limited x"
    and "length (delayed_message (kvStore q)) + length ops < 2 ^ 64"
    and "run cd txMaxBatch q ops = Some q'"
  shows "GetCurrentDelayedCnt q' dt ch =
           Inr (of_nat (count_prefix (getDelayedMsgDBPrefixKey dt ch) (delayed_message (kvStore q')))) \<and>
         count_prefix (getDelayedMsgDBPrefixKey dt ch) (delayed_message (kvStore q')) < 2 ^ 64 \<and>
         store_wf (kvStore q') \<and> counters_ok (kvStore q') \<and> keys_bounded (kvStore q')"
proof -
  have i: "kv_inv (length (delayed_message (kvStore q))) (kvStore q)"
    using assms(1,2,3) by (simp add: kv_inv_def)
  have i': "kv_inv (length (delayed_message (kvStore q)) + length ops) (kvStore q')"
    using i assms(4,5,6) by (rule run_inv)
  then have w: "store_wf (kvStore q')" and c: "counters_ok (kvStore q')"
    and kb: "keys_bounded (kvStore q')"
    and l: "length (delayed_message (kvStore q')) < 2 ^ 64"
    using assms(5) by (auto simp: kv_inv_def)
  let ?p = "getDelayedMsgDBPrefixKey dt ch"
  have b: "count_prefix ?p (delayed_message (kvStore q')) < 2 ^ 64"
    using count_prefix_le [of ?p "delayed_message (kvStore q')"] l by simp
  have g: "GetCurrentDelayedCnt q' dt ch =
             Inr (of_nat (count_prefix ?p (delayed_message (kvStore q'))))"
  proof (cases "length ch < 65536")
    case True
    have cell: "counter_cell_ok (bget (meta (kvStore q')) (counter_prefix @ ?p))
                  (count_prefix ?p (delayed_message (kvStore q')))"
      using c True unfolding counters_ok_def by blast
    show ?thesis
      using cell unfolding GetCurrentDelayedCnt_def counter_cell_ok_def
      by (cases "bget (meta (kvStore q')) (counter_prefix @ ?p)") auto
  next
    case False
    have "counter_prefix @ ?p \<notin> fst ` set (meta (kvStore q'))"
    proof
      assume "counter_prefix @ ?p \<in> fst ` set (meta (kvStore q'))"
      then obtain v where "(counter_prefix @ ?p, v) \<in> set (meta (kvStore q'))" by auto
      then have "length (fst (counter_prefix @ ?p, v)) < 65536"
        using kb unfolding keys_bounded_def by blast
      then show False using False by simp
    qed
    then have n: "bget (meta (kvStore q')) (counter_prefix @ ?p) = None"
      by (simp add: bget_None_iff)
    have "\<not> prefix ?p (fst kv)" if "kv \<in> set (delayed_message (kvStore q'))" for kv
    proof
      assume "prefix ?p (fst kv)"
      then have "length ?p \<le> length (fst kv)" by (rule prefix_length_le)
      moreover have "length (fst kv) < 65536" using kb that unfolding keys_bounded_def by blast
      ultimately show False using False by simp
    qed
    then have "count_prefix ?p (delayed_message (kvStore q')) = 0"
      by (simp add: count_prefix_def)
    then show ?thesis using n by (simp add: GetCurrentDelayedCnt_def)
  qed
  show ?thesis using g b w c kb by simp
qed

section \<open>Pairing of the two buckets\<close>

lemma kv_one: "kvStore q_one = fst (put_tx (\<lambda>k. True) (chan_msg 1 5 100) 44 empty_store)"
  by (simp add: q_one_def eval_defs)

lemma kv_two: "kvStore q_two = fst (put_tx (\<lambda>k. True) (chan_msg 2 5 200) 88 (kvStore q_one))"
  by (simp add: q_two_def q_one_def eval_defs)



lemma key_one_two: "key_of (chan_msg 1 5 100) \<noteq> key_of (chan_msg 2 5 200)"
proof
  assume "key_of (chan_msg 1 5 100) = key_of (chan_msg 2 5 200)"
  then have "(100 :: int64) = 200"
    unfolding key_of_def chan_msg_def using getKey_eq_imp by fastforce
  then show False by simp
qed


lemma primary_one: "delayed_message (kvStore q_one) = [(key_of (chan_msg 1 5 100), chan_msg 1 5 100)]"
  unfolding kv_one put_tx_fresh by simp



lemma primary_two: "delayed_message (kvStore q_two) =
    bput (key_of (chan_msg 2 5 200)) (chan_msg 2 5 200) (delayed_message (kvStore q_one))"
proof -
  have "bget (delayed_message (kvStore q_one)) (key_of (chan_msg 2 5 200)) = None"
    using key_one_two by (simp add: primary_one bget_def)
  then show ?thesis by (simp add: kv_two put_tx_primary)
qed








section \<open>Put followed by confirm\<close>

lemma bdelete_bput_absent: "wf_bucket b \<Longrightarrow> bget b k = None \<Longrightarrow> bdelete k (bput k v b) = b"
proof (induction b)
  case Nil
  then show ?case by (simp add: bdelete_def)
next
  case (Cons a b)
  obtain k1 v1 where a: "a = (k1, v1)" by (cases a)
  have w: "wf_bucket b" and lt: "\<forall>kv \<in> set b. k1 < fst kv"
    using Cons.prems unfolding a by (auto simp: wf_bucket_Cons)
  have ne: "k \<noteq> k1" and n: "bget b k = None"
    using Cons.prems(2) unfolding a by (auto simp: bget_def split: if_splits)
  have abs: "bdelete k b = b" using n by (rule bdelete_absent)
  show ?case
  proof (cases "k < k1")
    case True
    then show ?thesis using ne abs unfolding a by (simp add: bdelete_def)
  next
    case False
    then show ?thesis using ne Cons.IH [OF w n] unfolding a by (simp add: bdelete_def)
  qed
qed

lemma put_None_success:
  assumes "put cd env q m0 None cs = (q', i, off, wb, dend, None)"
  shows "kvStore q' = fst (put_tx (\<lambda>k. True) (m0\<lparr>ID := i\<rparr>) (virtualEnd dend) (kvStore q))"
proof -
  define qa where "qa = (if ID m0 \<le>s 0 then fst (nextMsgID env q) else q)"
  define m where "m = assign_id env q m0"
  have k: "kvStore qa = kvStore q" by (simp add: qa_def)
  obtain b' off1 wb1 dend1 err where
    w: "writeDelayedMessageToBackendWithCheck cd (io_put env) m cs (backend qa) = (b', off1, wb1, dend1, err)"
    by (metis prod_cases5)
  have p: "put cd env q m0 None cs =
            (case err of
               Some e \<Rightarrow> (qa\<lparr>backend := b', needFlush := True\<rparr>, ID m, off1, wb1, dend1, Some e)
             | None \<Rightarrow> put_store env (qa\<lparr>backend := b', needFlush := True\<rparr>) m off1 wb1 dend1)"
    using w
    by (cases "ID m0 \<le>s 0")
      (auto simp: put_def qa_def m_def assign_id_def Let_def split: prod.splits option.splits)
  have e: "err = None" using p assms by (cases err) auto
  then have ps: "put_store env (qa\<lparr>backend := b', needFlush := True\<rparr>) m off1 wb1 dend1 =
                  (q', i, off, wb, dend, None)"
    using p assms by simp
  have ok: "snd (put_tx (kv_put_ok env) m (virtualEnd dend1) (kvStore qa)) = None"
    using ps by (auto simp: put_store_def Update_put_tx_env Let_def split: if_splits)
  have i: "i = ID m" and dd: "dend = dend1"
    using ps ok by (auto simp: put_store_def Update_put_tx_env Let_def)
  have mm: "m0\<lparr>ID := i\<rparr> = m" unfolding i m_def by (simp add: assign_id_def)
  have "kvStore q' = fst (put_tx (\<lambda>k. True) m (virtualEnd dend1) (kvStore q))"
    using put_store_kvStore [of env "qa\<lparr>backend := b', needFlush := True\<rparr>" m off1 wb1 dend1] ps k ok
    by simp
  then show ?thesis using mm dd by simp
qed

lemma PutDelayMessage_success:
  assumes "PutDelayMessage cd env q m = (q1, ident, off, wb, dend, None)"
  shows "\<exists>so. kvStore q1 = fst (put_tx (\<lambda>k. True) (m\<lparr>ID := ident\<rparr>) so (kvStore q))"
proof -
  obtain d where "put cd env q m None 0 = (q1, ident, off, wb, d, None)"
    using assms by (auto simp: PutDelayMessage_def split: if_splits prod.splits)
  then show ?thesis using put_None_success by blast
qed


lemma read_counter_bput:
  "wf_bucket b \<Longrightarrow>
   read_counter (bput k (PutUint64 c) b) k' = (if k' = k then c else read_counter b k')"
  by (simp add: read_counter_def bget_bput)

lemma read_counter_bput_synced:
  "wf_bucket b \<Longrightarrow>
   read_counter (bput syncedOffsetKey v b) (counter_prefix @ p) = read_counter b (counter_prefix @ p)"
  by (simp add: read_counter_def bget_bput)

text \<open>
  C7, as the source has it. A successful \<open>PutDelayMessage(m)\<close> that stores a new primary
  key whose index key was free, followed by \<open>ConfirmedMessage\<close> of a message with the
  same type, channel and deliverAt whose \<open>DelayedOrigID\<close> is the identifier the put
  returned, succeeds and leaves the \<open>delayed_message\<close> and \<open>delayed_message_index\<close>
  buckets as they were before the put, and every counter reads as before (the counter
  of the message's prefix being below \<open>2^64 - 1\<close>). The \<open>meta\<close> bucket is not restored:
  it keeps the \<open>synced_offset\<close> the put wrote and the counter cell.
\<close>

theorem put_confirm_roundtrip:
  assumes wp: "wf_bucket (delayed_message (kvStore q))"
    and wi: "wf_bucket (delayed_message_index (kvStore q))"
    and wm: "wf_bucket (meta (kvStore q))"
    and put: "PutDelayMessage cd env q m = (q1, ident, off, wb, dend, None)"
    and newk: "bget (delayed_message (kvStore q)) (key_of (m\<lparr>ID := ident\<rparr>)) = None"
    and newi: "bget (delayed_message_index (kvStore q)) (index_key_of m) = None"
    and cmax: "read_counter (meta (kvStore q)) (counter_prefix @ prefix_of m) \<noteq> - 1"
    and conf: "ConfirmedMessage q1 (m\<lparr>DelayedOrigID := ident\<rparr>) = (q2, err)"
  shows "err = None \<and>
         delayed_message (kvStore q2) = delayed_message (kvStore q) \<and>
         delayed_message_index (kvStore q2) = delayed_message_index (kvStore q) \<and>
         (\<forall>p. read_counter (meta (kvStore q2)) (counter_prefix @ p) =
               read_counter (meta (kvStore q)) (counter_prefix @ p))"
proof -
  let ?kv = "kvStore q"
  let ?m' = "m\<lparr>ID := ident\<rparr>"
  let ?K = "key_of ?m'"
  let ?CK = "counter_prefix @ prefix_of m"
  let ?c = "read_counter (meta ?kv) ?CK"
  obtain so where k1: "kvStore q1 = fst (put_tx (\<lambda>k. True) ?m' so ?kv)"
    using PutDelayMessage_success [OF put] by blast
  have ik: "index_key_of ?m' = index_key_of m" and pf: "prefix_of ?m' = prefix_of m"
    and iv: "index_value_of ?m' = index_value_of m"
    by (simp_all add: index_key_of_def prefix_of_def index_value_of_def)
  have P1: "delayed_message (kvStore q1) = bput ?K ?m' (delayed_message ?kv)"
    using newk by (simp add: k1 put_tx_primary)
  have I1: "delayed_message_index (kvStore q1) =
              bput (index_key_of m) (index_value_of m) (delayed_message_index ?kv)"
    using newk by (simp add: k1 put_tx_index ik iv)
  have M1: "meta (kvStore q1) = bput syncedOffsetKey (Itoa so) (bput ?CK (PutUint64 (?c + 1)) (meta ?kv))"
    using newk by (simp add: k1 put_tx_meta pf)
  have wM0: "wf_bucket (bput ?CK (PutUint64 (?c + 1)) (meta ?kv))" using wm by (rule wf_bput)
  have wM1: "wf_bucket (meta (kvStore q1))" unfolding M1 using wM0 by (rule wf_bput)
  have dk: "getDelayedMsgDBKey (scast (DelayedType (m\<lparr>DelayedOrigID := ident\<rparr>)))
              (DelayedChannel (m\<lparr>DelayedOrigID := ident\<rparr>)) (DelayedTs (m\<lparr>DelayedOrigID := ident\<rparr>))
              (DelayedOrigID (m\<lparr>DelayedOrigID := ident\<rparr>)) = ?K"
    by (simp add: key_of_def)
  have dp: "getDelayedMsgDBPrefixKey (scast (DelayedType (m\<lparr>DelayedOrigID := ident\<rparr>)))
              (DelayedChannel (m\<lparr>DelayedOrigID := ident\<rparr>)) = prefix_of m"
    by (simp add: prefix_of_def)
  have g: "bget (delayed_message (kvStore q1)) ?K = Some ?m'"
    unfolding P1 using wp by (simp add: bget_bput)
  have rc1: "read_counter (meta (kvStore q1)) ?CK = ?c + 1"
    unfolding M1 using wm wM0 by (simp add: read_counter_bput_synced read_counter_bput)
  have nz: "?c + 1 \<noteq> 0" using cmax by (metis add.commute add_eq_0_iff)
  let ?d = "deleteBucketKey (scast (DelayedType (m\<lparr>DelayedOrigID := ident\<rparr>)))
              (DelayedChannel (m\<lparr>DelayedOrigID := ident\<rparr>)) (DelayedTs (m\<lparr>DelayedOrigID := ident\<rparr>))
              (DelayedOrigID (m\<lparr>DelayedOrigID := ident\<rparr>)) (kvStore q1)"
  have de: "snd ?d = None"
    unfolding deleteBucketKey_def dk Let_def by (simp add: g)
  have c2: "(q2, err) = (q1\<lparr>kvStore := fst ?d\<rparr>, None)"
    using conf de unfolding ConfirmedMessage_def Update_def
    by (cases ?d) (auto split: option.splits)
  then have e: "err = None" and k2: "kvStore q2 = fst ?d" by simp_all
  have P2: "delayed_message (kvStore q2) = delayed_message ?kv"
    unfolding k2 deleteBucketKey_primary dk P1 using wp newk by (rule bdelete_bput_absent)
  have I2: "delayed_message_index (kvStore q2) = delayed_message_index ?kv"
    unfolding k2 deleteBucketKey_index dk using wi newi by (simp add: g ik I1 bdelete_bput_absent)
  have M2: "meta (kvStore q2) = bput ?CK (PutUint64 (?c + 1 - 1)) (meta (kvStore q1))"
    unfolding k2 deleteBucketKey_meta dk dp using nz by (simp add: g rc1)
  have C2: "read_counter (meta (kvStore q2)) (counter_prefix @ p) =
            read_counter (meta ?kv) (counter_prefix @ p)" for p
  proof (cases "p = prefix_of m")
    case True
    then show ?thesis unfolding M2 using wM1 by (simp add: read_counter_bput)
  next
    case False
    then show ?thesis unfolding M2 using wM1 wM0 wm
      by (simp add: read_counter_bput) (simp add: M1 read_counter_bput_synced read_counter_bput)
  qed
  show ?thesis using e P2 I2 C2 by blast
qed


lemma put_one_full:
  "PutDelayMessage example_codec ok_env fresh_queue (chan_msg 0 5 100) =
     (q_one, 1, 0, 44, Some \<lparr>FileNum = 0, Pos = 44, virtualEnd = 44, totalMsgCnt = 1\<rparr>, None)"
  by (simp add: q_one_def eval_defs)

text \<open>The witness: a put on a fresh engine, confirmed under the identifier 1 it returned.\<close>

theorem put_confirm_roundtrip_witness:
  "wf_bucket (delayed_message (kvStore fresh_queue)) \<and>
   wf_bucket (delayed_message_index (kvStore fresh_queue)) \<and>
   wf_bucket (meta (kvStore fresh_queue)) \<and>
   PutDelayMessage example_codec ok_env fresh_queue (chan_msg 0 5 100) =
     (q_one, 1, 0, 44, Some \<lparr>FileNum = 0, Pos = 44, virtualEnd = 44, totalMsgCnt = 1\<rparr>, None) \<and>
   bget (delayed_message (kvStore fresh_queue)) (key_of ((chan_msg 0 5 100)\<lparr>ID := 1\<rparr>)) = None \<and>
   bget (delayed_message_index (kvStore fresh_queue)) (index_key_of (chan_msg 0 5 100)) = None \<and>
   read_counter (meta (kvStore fresh_queue)) (counter_prefix @ prefix_of (chan_msg 0 5 100)) \<noteq> - 1 \<and>
   snd (ConfirmedMessage q_one ((chan_msg 0 5 100)\<lparr>DelayedOrigID := 1\<rparr>)) = None \<and>
   delayed_message (kvStore (fst (ConfirmedMessage q_one ((chan_msg 0 5 100)\<lparr>DelayedOrigID := 1\<rparr>)))) = [] \<and>
   delayed_message_index (kvStore (fst (ConfirmedMessage q_one ((chan_msg 0 5 100)\<lparr>DelayedOrigID := 1\<rparr>)))) = []"
proof -
  have w: "wf_bucket (delayed_message (kvStore fresh_queue))"
    "wf_bucket (delayed_message_index (kvStore fresh_queue))"
    "wf_bucket (meta (kvStore fresh_queue))"
    by (simp_all add: fresh_queue_def empty_store_def)
  have a: "bget (delayed_message (kvStore fresh_queue)) (key_of ((chan_msg 0 5 100)\<lparr>ID := 1\<rparr>)) = None"
    by (simp add: fresh_queue_def empty_store_def bget_def)
  have b: "bget (delayed_message_index (kvStore fresh_queue)) (index_key_of (chan_msg 0 5 100)) = None"
    by (simp add: fresh_queue_def empty_store_def bget_def)
  have c: "read_counter (meta (kvStore fresh_queue)) (counter_prefix @ prefix_of (chan_msg 0 5 100)) \<noteq> - 1"
    by (simp add: fresh_queue_def empty_store_def read_counter_def bget_def)
  have d: "ConfirmedMessage q_one ((chan_msg 0 5 100)\<lparr>DelayedOrigID := 1\<rparr>) =
             (fst (ConfirmedMessage q_one ((chan_msg 0 5 100)\<lparr>DelayedOrigID := 1\<rparr>)),
              snd (ConfirmedMessage q_one ((chan_msg 0 5 100)\<lparr>DelayedOrigID := 1\<rparr>)))"
    by simp
  have e: "delayed_message (kvStore fresh_queue) = []" "delayed_message_index (kvStore fresh_queue) = []"
    by (simp_all add: fresh_queue_def empty_store_def)
  show ?thesis
    using put_confirm_roundtrip [OF w put_one_full a b c d] w put_one_full a b c e by simp
qed

text \<open>
  Confirming with the \<open>origId\<close> the message was put with deletes nothing: the primary
  key holds the identifier the put assigned, \<open>ConfirmedMessage\<close> looks the key up under
  \<open>DelayedOrigID\<close>. After a put with \<open>origId = 5\<close> (identifier 1) on a fresh engine,
  confirming the message returns the key-not-found error and the message stays.
\<close>

theorem put_confirm_same_origId_counterexample:
  "PutDelayMessage example_codec ok_env fresh_queue (chan_msg 0 5 100) =
     (q_one, 1, 0, 44, Some \<lparr>FileNum = 0, Pos = 44, virtualEnd = 44, totalMsgCnt = 1\<rparr>, None) \<and>
   ConfirmedMessage q_one (chan_msg 1 5 100) = (q_one, Some ErrBucketKeyNotFound) \<and>
   delayed_message (kvStore q_one) = [(key_of (chan_msg 1 5 100), chan_msg 1 5 100)] \<and>
   delayed_message (kvStore fresh_queue) = []"
proof -
  have ne: "getDelayedMsgDBKey 1 [99] 100 5 \<noteq> key_of (chan_msg 1 5 100)"
  proof
    assume "getDelayedMsgDBKey 1 [99] 100 5 = key_of (chan_msg 1 5 100)"
    then have "(5 :: int64) = 1"
      unfolding key_of_def chan_msg_def using getKey_eq_imp by fastforce
    then show False by simp
  qed
  have g: "bget (delayed_message (kvStore q_one)) (getDelayedMsgDBKey 1 [99] 100 5) = None"
    using ne by (simp add: primary_one bget_def)
  have c: "ConfirmedMessage q_one (chan_msg 1 5 100) = (q_one, Some ErrBucketKeyNotFound)"
    by (simp add: ConfirmedMessage_def Update_def deleteBucketKey_def chan_msg_def g Let_def)
  have e: "delayed_message (kvStore fresh_queue) = []"
    by (simp add: fresh_queue_def empty_store_def)
  show ?thesis using put_one_full c primary_one e by blast
qed

section \<open>Emptying up to a bound\<close>

lemma entry_with_prefix:
  assumes w: "store_wf tx" and m: "(k, v) \<in> set (delayed_message tx)"
    and l: "length ch < 65536" and p: "prefix (getDelayedMsgDBPrefixKey dt ch) k"
  shows "decodeDelayedMsgDBKey k = Inr (ucast (scast (DelayedType v) :: int64), DelayedTs v, ID v, ch)"
    and "DelayedChannel v = ch"
    and "getDelayedMsgDBKey dt ch (DelayedTs v) (ID v) = k"
proof -
  have k: "k = key_of v" and lv: "length (DelayedChannel v) < 65536"
    using w m unfolding store_wf_def by auto
  have pe: "getDelayedMsgDBPrefixKey dt ch = prefix_of v"
    using p lv l unfolding k by (simp add: prefix_key_of)
  then have c: "ch = DelayedChannel v"
    unfolding prefix_of_def using l lv by (simp add: prefixKey_eq_iff)
  show "DelayedChannel v = ch" using c by simp
  show "decodeDelayedMsgDBKey k = Inr (ucast (scast (DelayedType v) :: int64), DelayedTs v, ID v, ch)"
    unfolding k key_of_def c using lv by (rule decode_getKey)
  show "getDelayedMsgDBKey dt ch (DelayedTs v) (ID v) = k"
    unfolding k key_of_def getKey_split using pe by (simp add: prefix_of_def)
qed

lemma length_bdelete_present:
  "wf_bucket b \<Longrightarrow> bget b k \<noteq> None \<Longrightarrow> Suc (length (bdelete k b)) = length b"
proof (induction b)
  case Nil
  then show ?case by (simp add: bget_def)
next
  case (Cons a b)
  obtain k1 v1 where a: "a = (k1, v1)" by (cases a)
  have w: "wf_bucket b" and lt: "\<forall>kv \<in> set b. k1 < fst kv"
    using Cons.prems unfolding a by (auto simp: wf_bucket_Cons)
  show ?case
  proof (cases "k = k1")
    case True
    then have "k \<notin> fst ` set b" using lt by force
    then have "bdelete k b = b" by (simp add: bdelete_absent bget_None_iff)
    then show ?thesis using True unfolding a by (simp add: bdelete_def)
  next
    case False
    then have "bget b k \<noteq> None" using Cons.prems(2) unfolding a by (simp add: bget_def)
    then show ?thesis using Cons.IH [OF w] False unfolding a by (simp add: bdelete_def)
  qed
qed

lemma delete_present:
  assumes "wf_bucket (delayed_message tx)"
    and "(getDelayedMsgDBKey dt ch ts i, v) \<in> set (delayed_message tx)"
  shows "snd (deleteBucketKey dt ch ts i tx) = None"
    and "Suc (length (delayed_message (fst (deleteBucketKey dt ch ts i tx)))) = length (delayed_message tx)"
proof -
  have g: "bget (delayed_message tx) (getDelayedMsgDBKey dt ch ts i) = Some v"
    using assms by (simp add: bget_Some_iff)
  show "snd (deleteBucketKey dt ch ts i tx) = None"
    by (simp add: deleteBucketKey_def g Let_def)
  show "Suc (length (delayed_message (fst (deleteBucketKey dt ch ts i tx)))) = length (delayed_message tx)"
    unfolding deleteBucketKey_primary using assms(1) g by (intro length_bdelete_present) auto
qed


lemma filter_bdelete:
  assumes w: "wf_bucket b" and m: "(k, v) \<in> set b"
  shows "filter (\<lambda>kv. kv \<notin> set D) (bdelete k b) = filter (\<lambda>kv. kv \<notin> set ((k, v) # D)) b"
proof -
  have "\<And>kv. kv \<in> set b \<Longrightarrow> (fst kv \<noteq> k) = (kv \<noteq> (k, v))"
    using wf_unique [OF w _ m] by (metis fst_conv prod.collapse)
  then have "filter (\<lambda>kv. fst kv \<noteq> k \<and> kv \<notin> set D) b = filter (\<lambda>kv. kv \<notin> set ((k, v) # D)) b"
    by (intro filter_cong) auto
  then show ?thesis by (simp add: bdelete_def conj_commute)
qed

lemma until_loop_due:
  assumes l: "length ch < 65536"
  shows "store_wf tx \<Longrightarrow> distinct (map fst es) \<Longrightarrow> set es \<subseteq> set (delayed_message tx) \<Longrightarrow>
         b \<le> tm + 1 \<Longrightarrow>
         until_loop tm dt peekTs ident ch (getDelayedMsgDBPrefixKey dt ch) es tx b = (tx', b', err) \<Longrightarrow>
         err = None \<and> b \<le> b' \<and>
         nat (b' - b) = min (length (takeWhile (due peekTs ident (getDelayedMsgDBPrefixKey dt ch)) es))
                            (nat (tm + 1 - b)) \<and>
         delayed_message tx' = filter (\<lambda>kv. kv \<notin> set (take (nat (b' - b)) es)) (delayed_message tx) \<and>
         length (delayed_message tx') + nat (b' - b) = length (delayed_message tx)"
proof (induction es arbitrary: tx b)
  case Nil
  then show ?case by simp
next
  case (Cons e es)
  obtain k v where e: "e = (k, v)" by (cases e)
  let ?p = "getDelayedMsgDBPrefixKey dt ch"
  note r = Cons.prems(5) [unfolded e]
  show ?case
  proof (cases "prefix ?p k")
    case False
    then show ?thesis using r by (simp add: e due_def)
  next
    case p: True
    show ?thesis
    proof (cases "tm < b")
      case True
      then have "nat (tm + 1 - b) = 0" by simp
      then show ?thesis using r p True by (simp add: e)
    next
      case nb: False
      have m: "(k, v) \<in> set (delayed_message tx)" using Cons.prems(3) e by simp
      note f = entry_with_prefix [OF Cons.prems(1) m l p]
      show ?thesis
      proof (cases "below_bound peekTs ident v")
        case False
        then show ?thesis using r p nb f(1)
          by (auto simp: e due_def below_bound_def)
      next
        case bb: True
        let ?tx1 = "fst (deleteBucketKey dt ch (DelayedTs v) (ID v) tx)"
        have wp: "wf_bucket (delayed_message tx)" using Cons.prems(1) by (simp add: store_wf_def)
        have m': "(getDelayedMsgDBKey dt ch (DelayedTs v) (ID v), v) \<in> set (delayed_message tx)"
          using m f(3) by simp
        note d = delete_present [OF wp m']
        obtain tx1 where dd: "deleteBucketKey dt ch (DelayedTs v) (ID v) tx = (tx1, None)"
          using d(1) by (metis prod.collapse)
        have t1: "?tx1 = tx1" by (simp add: dd)
        have p1: "delayed_message ?tx1 = bdelete k (delayed_message tx)"
          by (simp add: deleteBucketKey_primary f(3))
        have r1: "until_loop tm dt peekTs ident ch ?p es ?tx1 (b + 1) = (tx', b', err)"
          using r p nb f(1) bb unfolding t1 by (auto simp: below_bound_def dd)
        have w1: "store_wf ?tx1" using Cons.prems(1) by (rule deleteBucketKey_store_wf)
        have d1: "distinct (map fst es)" and nk: "k \<notin> fst ` set es"
          using Cons.prems(2) e by auto
        have s1: "set es \<subseteq> set (delayed_message ?tx1)"
          using Cons.prems(3) nk unfolding p1 by auto
        have b1: "b + 1 \<le> tm + 1" using nb by simp
        note IH = Cons.IH [OF w1 d1 s1 b1 r1]
        have n: "nat (b' - b) = Suc (nat (b' - (b + 1)))" using IH by linarith
        have t: "nat (tm + 1 - b) = Suc (nat (tm + 1 - (b + 1)))" using nb by linarith
        have du: "due peekTs ident ?p (k, v)" using p bb by (simp add: due_def)
        have c1: "err = None \<and> b \<le> b'" using IH by simp
        have c2: "nat (b' - b) = min (length (takeWhile (due peekTs ident ?p) (e # es))) (nat (tm + 1 - b))"
          unfolding n t e using IH du by simp
        have c3: "delayed_message tx' = filter (\<lambda>kv. kv \<notin> set (take (nat (b' - b)) (e # es))) (delayed_message tx)"
          unfolding n e using IH filter_bdelete [OF wp m] by (simp add: p1)
        have c4: "length (delayed_message tx') + nat (b' - b) = length (delayed_message tx)"
        proof -
          have "length (delayed_message tx') + nat (b' - (b + 1)) = length (delayed_message ?tx1)"
            using IH by blast
          then show ?thesis using d(2) n by linarith
        qed
        show ?thesis using c1 c2 c3 c4 by blast
      qed
    qed
  qed
qed


lemma wf_distinct: "wf_bucket b \<Longrightarrow> distinct (map fst b)"
  unfolding wf_bucket_def by (simp add: strict_sorted_iff)

lemma distinct_dropWhile_fst: "distinct (map fst b) \<Longrightarrow> distinct (map fst (dropWhile P b))"
  by (induction b) auto

lemma seek_sub: "set (seek pfx b) \<subseteq> set b" "wf_bucket b \<Longrightarrow> distinct (map fst (seek pfx b))"
proof -
  show "set (seek pfx b) \<subseteq> set b" unfolding seek_def by (auto dest: set_dropWhileD)
  assume "wf_bucket b"
  then have "distinct (map fst b)" by (rule wf_distinct)
  then show "distinct (map fst (seek pfx b))"
    unfolding seek_def by (rule distinct_dropWhile_fst)
qed

lemma take_takeWhile_le: "n \<le> length (takeWhile P xs) \<Longrightarrow> take n xs = take n (takeWhile P xs)"
proof (induction xs arbitrary: n)
  case Nil
  then show ?case by simp
next
  case (Cons x xs)
  then show ?case by (cases n) (auto split: if_splits)
qed

text \<open>
  C8, as the source has it. One transaction of \<open>emptyDelayedUntil(dt, peekTs, id, ch)\<close>
  on a well-formed store, with a channel name shorter than 65536 bytes and a batch
  limit \<open>txMaxBatch \<ge> 0\<close>, returns no error and deletes the first
  \<open>min(n, txMaxBatch + 1)\<close> of the \<open>n\<close> entries that the cursor meets from the prefix on
  before the first one that is not below \<open>(peekTs, id)\<close>: the test is
  \<open>batched > txMaxBatch\<close>, so with the source's limit of 10000 and 10001 or more such
  entries one transaction deletes 10001, where the source's comment says at most 10000.
  Every deleted entry has channel \<open>ch\<close> and \<open>(deliverAt, id)\<close> below \<open>(peekTs, id)\<close> in
  signed order.
\<close>

theorem until_pass_batch:
  assumes w: "store_wf db" and l: "length ch < 65536" and z: "0 \<le> tm"
    and r: "until_pass tm dt peekTs ident ch db = (db', batched, err)"
  shows "err = None \<and>
         batched = int (min (length (takeWhile (due peekTs ident (getDelayedMsgDBPrefixKey dt ch))
                                      (seek (getDelayedMsgDBPrefixKey dt ch) (delayed_message db))))
                            (nat tm + 1)) \<and>
         delayed_message db' =
           filter (\<lambda>kv. kv \<notin> set (take (nat batched) (seek (getDelayedMsgDBPrefixKey dt ch) (delayed_message db))))
             (delayed_message db) \<and>
         length (delayed_message db') + nat batched = length (delayed_message db) \<and>
         list_all (\<lambda>kv. DelayedChannel (snd kv) = ch \<and> below_bound peekTs ident (snd kv))
           (take (nat batched) (seek (getDelayedMsgDBPrefixKey dt ch) (delayed_message db)))"
proof -
  let ?p = "getDelayedMsgDBPrefixKey dt ch"
  let ?es = "seek ?p (delayed_message db)"
  obtain tx b e where u: "until_loop tm dt peekTs ident ch ?p ?es db 0 = (tx, b, e)"
    by (metis prod_cases3)
  have wp: "wf_bucket (delayed_message db)" using w by (simp add: store_wf_def)
  have b0: "(0 :: int) \<le> tm + 1" using z by simp
  note L = until_loop_due [OF l w seek_sub(2) [OF wp] seek_sub(1) b0 u]
  have e: "e = None" using L by simp
  have rr: "db' = tx" "batched = b" "err = None"
    using r u e by (simp_all add: until_pass_def Let_def)
  have nb: "nat b = min (length (takeWhile (due peekTs ident ?p) ?es)) (nat tm + 1)"
    using L z by (simp add: nat_add_distrib)
  have b0': "0 \<le> b" using L by simp
  have bn: "b = int (min (length (takeWhile (due peekTs ident ?p) ?es)) (nat tm + 1))"
    unfolding nb [symmetric] using b0' by simp
  have tk: "take (nat b) ?es = take (nat b) (takeWhile (due peekTs ident ?p) ?es)"
  proof -
    have "nat b \<le> length (takeWhile (due peekTs ident ?p) ?es)" using nb by simp
    then show ?thesis by (rule take_takeWhile_le)
  qed
  have ch: "list_all (\<lambda>kv. DelayedChannel (snd kv) = ch \<and> below_bound peekTs ident (snd kv))
              (take (nat b) ?es)"
    unfolding tk list_all_iff
  proof
    fix kv assume "kv \<in> set (take (nat b) (takeWhile (due peekTs ident ?p) ?es))"
    then have m: "kv \<in> set (takeWhile (due peekTs ident ?p) ?es)" by (rule in_set_takeD)
    then have d: "due peekTs ident ?p kv" by (rule set_takeWhileD [THEN conjunct2])
    have "kv \<in> set (delayed_message db)"
      using m seek_sub(1) [of ?p "delayed_message db"] by (auto dest: set_takeWhileD)
    then have "(fst kv, snd kv) \<in> set (delayed_message db)" by simp
    from entry_with_prefix(2) [OF w this l, of dt] d
    show "DelayedChannel (snd kv) = ch \<and> below_bound peekTs ident (snd kv)"
      by (simp add: due_def)
  qed
  have c3: "delayed_message tx = filter (\<lambda>kv. kv \<notin> set (take (nat b) ?es)) (delayed_message db)"
    using L [unfolded diff_0_right] by (elim conjE)
  have c4: "length (delayed_message tx) + nat b = length (delayed_message db)"
    using L [unfolded diff_0_right] by (elim conjE)
  show ?thesis unfolding rr by (intro conjI refl bn c3 c4 ch)
qed


lemma be_bytes_numeral:
  "be_bytes (numeral n) v = be_bytes (pred_numeral n) (v div 256) @ [of_nat (v mod 256)]"
  unfolding numeral_eq_Suc [of n] by (rule be_bytes.simps)

lemma chan_key:
  "key_of (chan_msg 1 5 100) = [0, 1, 45, 0, 1, 99, 0, 0, 0, 0, 0, 0, 0, 100, 0, 0, 0, 0, 0, 0, 0, 1]"
  "key_of (chan_msg 2 5 200) = [0, 1, 45, 0, 1, 99, 0, 0, 0, 0, 0, 0, 0, 200, 0, 0, 0, 0, 0, 0, 0, 2]"
  "getDelayedMsgDBPrefixKey 1 [99] = [0, 1, 45, 0, 1, 99]"
  by (simp_all add: key_of_def chan_msg_def getDelayedMsgDBKey_def getDelayedMsgDBPrefixKey_def
      PutUint16_def PutUint64_def be_bytes_numeral)

lemma wf_two: "store_wf (kvStore q_two)"
proof -
  have "store_wf (kvStore q_one)"
    unfolding kv_one using fresh_inv(1) by (intro put_tx_store_wf) (simp_all add: fresh_queue_def chan_msg_def)
  then show ?thesis unfolding kv_two by (intro put_tx_store_wf) (simp_all add: chan_msg_def)
qed

lemma primary_two_list:
  "delayed_message (kvStore q_two) =
     [(key_of (chan_msg 1 5 100), chan_msg 1 5 100), (key_of (chan_msg 2 5 200), chan_msg 2 5 200)]"
  unfolding primary_two primary_one by (simp add: chan_key)

lemma due_two:
  "takeWhile (due 300 0 (getDelayedMsgDBPrefixKey 1 [99]))
     (seek (getDelayedMsgDBPrefixKey 1 [99]) (delayed_message (kvStore q_two))) =
   delayed_message (kvStore q_two)"
  unfolding primary_two_list seek_def due_def below_bound_def
  by (simp add: chan_key) (simp add: chan_msg_def word_sless_alt)

text \<open>
  The witness: the engine with two messages of channel \<open>c\<close>, due at 100 and 200, and a
  batch limit of 1. One transaction of emptying up to \<open>(300, 0)\<close> deletes both.
\<close>

theorem until_pass_batch_witness:
  "store_wf (kvStore q_two) \<and> length ([99] :: bytes) < 65536 \<and> (0 :: int) \<le> 1 \<and>
   length (delayed_message (kvStore q_two)) = 2 \<and>
   fst (snd (until_pass 1 1 300 0 [99] (kvStore q_two))) = 2 \<and>
   snd (snd (until_pass 1 1 300 0 [99] (kvStore q_two))) = None \<and>
   delayed_message (fst (until_pass 1 1 300 0 [99] (kvStore q_two))) = []"
proof -
  have l: "length ([99] :: bytes) < 65536" by simp
  have z: "(0 :: int) \<le> 1" by simp
  have r: "until_pass 1 1 300 0 [99] (kvStore q_two) =
             (fst (until_pass 1 1 300 0 [99] (kvStore q_two)),
              fst (snd (until_pass 1 1 300 0 [99] (kvStore q_two))),
              snd (snd (until_pass 1 1 300 0 [99] (kvStore q_two))))"
    by simp
  have n: "length (delayed_message (kvStore q_two)) = 2" by (simp add: primary_two_list)
  note T = until_pass_batch [OF wf_two l z r, unfolded due_two]
  have e: "snd (snd (until_pass 1 1 300 0 [99] (kvStore q_two))) = None"
    using T by (elim conjE)
  have b: "fst (snd (until_pass 1 1 300 0 [99] (kvStore q_two))) = 2"
    using T n by simp
  have "length (delayed_message (fst (until_pass 1 1 300 0 [99] (kvStore q_two)))) +
          nat (fst (snd (until_pass 1 1 300 0 [99] (kvStore q_two)))) =
        length (delayed_message (kvStore q_two))"
    using T by (elim conjE)
  then have d: "delayed_message (fst (until_pass 1 1 300 0 [99] (kvStore q_two))) = []"
    unfolding b n by simp
  show ?thesis by (intro conjI wf_two l z n b e d)
qed

section \<open>A run of three puts and a confirm\<close>

lemma PutUint64_small:
  "PutUint64 0 = [0, 0, 0, 0, 0, 0, 0, 0]" "PutUint64 1 = [0, 0, 0, 0, 0, 0, 0, 1]"
  "PutUint64 2 = [0, 0, 0, 0, 0, 0, 0, 2]" "PutUint64 100 = [0, 0, 0, 0, 0, 0, 0, 100]"
  "PutUint64 200 = [0, 0, 0, 0, 0, 0, 0, 200]"
  by (simp_all add: PutUint64_def be_bytes_numeral)

lemma chan_key_bytes:
  "key_of (chan_msg i orig t) = [0, 1, 45, 0, 1, 99] @ PutUint64 t @ PutUint64 i"
  by (simp add: key_of_def chan_msg_def getDelayedMsgDBKey_def PutUint16_def be_bytes_numeral)

lemma kv_s1: "kvStore s_one = fst (put_tx (\<lambda>k. True) (chan_msg 1 5 200) 44 empty_store)"
  by (simp add: s_one_def eval_defs)

lemma kv_s2: "kvStore s_two = fst (put_tx (\<lambda>k. True) (chan_msg 2 6 100) 88 (kvStore s_one))"
  by (simp add: s_two_def s_one_def eval_defs)

lemma kv_s3: "kvStore s_three = fst (put_tx (\<lambda>k. True) (chan_msg 3 7 200) 132 (kvStore s_two))"
  by (simp add: s_three_def s_two_def s_one_def eval_defs)


lemma hint_s3: "oldestChannelDelayedTs s_three [99] = Some 100"
  by (simp add: s_three_def s_two_def s_one_def eval_defs)

lemma put_s_ok:
  "snd (snd (snd (snd (snd (PutDelayMessage example_codec ok_env fresh_queue (chan_msg 0 5 200)))))) = None"
  "snd (snd (snd (snd (snd (PutDelayMessage example_codec ok_env s_one (chan_msg 0 6 100)))))) = None"
  "snd (snd (snd (snd (snd (PutDelayMessage example_codec ok_env s_two (chan_msg 0 7 200)))))) = None"
  by (simp_all add: s_two_def s_one_def eval_defs)


lemma PutUint64_3: "PutUint64 3 = [0, 0, 0, 0, 0, 0, 0, 3]"
  by (simp add: PutUint64_def be_bytes_numeral)

lemma index_key_chan [simp]:
  "index_key_of (chan_msg i orig t) = index_key_of (chan_msg i' orig' t') \<longleftrightarrow> orig = orig'"
  by (auto simp: index_key_of_def chan_msg_def getIndexKey_split dest: PutUint64_inj)

lemma primary_s1: "delayed_message (kvStore s_one) = [(key_of (chan_msg 1 5 200), chan_msg 1 5 200)]"
  unfolding kv_s1 put_tx_primary by (simp add: empty_store_def bget_def)

lemma primary_s2:
  "delayed_message (kvStore s_two) =
     [(key_of (chan_msg 2 6 100), chan_msg 2 6 100), (key_of (chan_msg 1 5 200), chan_msg 1 5 200)]"
  unfolding kv_s2 put_tx_primary primary_s1
  by (simp add: bget_def chan_key_bytes PutUint64_small)

lemma primary_s3:
  "delayed_message (kvStore s_three) =
     [(key_of (chan_msg 2 6 100), chan_msg 2 6 100), (key_of (chan_msg 1 5 200), chan_msg 1 5 200),
      (key_of (chan_msg 3 7 200), chan_msg 3 7 200)]"
  unfolding kv_s3 put_tx_primary primary_s2
  by (simp add: bget_def chan_key_bytes PutUint64_small PutUint64_3)

lemma confirm_key:
  "getDelayedMsgDBKey (scast (DelayedType (chan_msg 0 2 100))) (DelayedChannel (chan_msg 0 2 100))
     (DelayedTs (chan_msg 0 2 100)) (DelayedOrigID (chan_msg 0 2 100)) = key_of (chan_msg 2 6 100)"
  by (simp add: key_of_def chan_msg_def)

lemma confirm_s3:
  "ConfirmedMessage s_three (chan_msg 0 2 100) = (s_four, None)"
proof -
  have g: "bget (delayed_message (kvStore s_three)) (key_of (chan_msg 2 6 100)) = Some (chan_msg 2 6 100)"
    unfolding primary_s3 by (simp add: bget_def)
  have "snd (deleteBucketKey (scast (DelayedType (chan_msg 0 2 100))) (DelayedChannel (chan_msg 0 2 100))
          (DelayedTs (chan_msg 0 2 100)) (DelayedOrigID (chan_msg 0 2 100)) (kvStore s_three)) = None"
    unfolding deleteBucketKey_def confirm_key by (simp add: g Let_def)
  then have "snd (ConfirmedMessage s_three (chan_msg 0 2 100)) = None"
    unfolding ConfirmedMessage_def Update_def by (auto split: prod.splits option.splits)
  then show ?thesis unfolding s_four_def by (metis prod.collapse)
qed

lemma kv_s4:
  "kvStore s_four = fst (deleteBucketKey 1 [99] 100 2 (kvStore s_three))"
proof -
  have "snd (deleteBucketKey 1 [99] 100 2 (kvStore s_three)) = None"
    using confirm_s3 unfolding ConfirmedMessage_def Update_def
    by (auto simp: chan_msg_def split: prod.splits option.splits)
  then show ?thesis
    unfolding s_four_def ConfirmedMessage_def Update_def
    by (auto simp: chan_msg_def split: prod.splits option.splits)
qed

lemma primary_s4:
  "delayed_message (kvStore s_four) =
     [(key_of (chan_msg 1 5 200), chan_msg 1 5 200), (key_of (chan_msg 3 7 200), chan_msg 3 7 200)]"
proof -
  have k: "getDelayedMsgDBKey 1 [99] 100 2 = key_of (chan_msg 2 6 100)"
    by (simp add: key_of_def chan_msg_def)
  show ?thesis
    unfolding kv_s4 deleteBucketKey_primary k primary_s3
    by (simp add: bdelete_def chan_key_bytes PutUint64_small PutUint64_3)
qed

lemma example_run: "run example_codec 10000 fresh_queue example_ops = Some s_four"
  by (simp add: example_ops_def s_one_def [symmetric] s_two_def [symmetric] s_three_def [symmetric]
      s_four_def [symmetric])



lemma example_limited: "\<forall>x \<in> set example_ops. key_limited x"
  using ok_env_limited by (simp add: example_ops_def key_limited_def)


lemma count_s4: "count_prefix (getDelayedMsgDBPrefixKey 1 [99]) (delayed_message (kvStore s_four)) = 2"
  unfolding primary_s4 count_prefix_def by (simp add: chan_key(3) chan_key_bytes)

text \<open>
  The witness of the counter theorem: after the three puts and the confirm, two keys of
  channel \<open>c\<close> are left and the counter of \<open>(1, c)\<close> reads 2.
\<close>

theorem counter_consistency_witness:
  "store_wf (kvStore fresh_queue) \<and> counters_ok (kvStore fresh_queue) \<and>
   keys_bounded (kvStore fresh_queue) \<and> list_all key_limited example_ops \<and>
   run example_codec 10000 fresh_queue example_ops = Some s_four \<and>
   count_prefix (getDelayedMsgDBPrefixKey 1 [99]) (delayed_message (kvStore s_four)) = 2 \<and>
   GetCurrentDelayedCnt s_four 1 [99] = Inr 2"
proof -
  have n: "length (delayed_message (kvStore fresh_queue)) + length example_ops < 2 ^ 64"
    by (simp add: fresh_queue_def empty_store_def example_ops_def)
  have l: "list_all key_limited example_ops" using example_limited by (simp add: list_all_iff)
  have "GetCurrentDelayedCnt s_four 1 [99] =
          Inr (of_nat (count_prefix (getDelayedMsgDBPrefixKey 1 [99]) (delayed_message (kvStore s_four))))"
    using counter_consistency [OF fresh_inv fresh_bounded example_limited n example_run, of 1 "[99]"]
    by (elim conjE)
  then have g: "GetCurrentDelayedCnt s_four 1 [99] = Inr 2" unfolding count_s4 by simp
  show ?thesis by (intro conjI fresh_inv fresh_bounded l example_run count_s4 g)
qed



lemma wf_s3: "store_wf (kvStore s_three)"
proof -
  have "store_wf empty_store" using fresh_inv(1) by (simp add: fresh_queue_def)
  then have "store_wf (kvStore s_one)"
    unfolding kv_s1 by (intro put_tx_store_wf) (simp_all add: chan_msg_def)
  then have "store_wf (kvStore s_two)"
    unfolding kv_s2 by (intro put_tx_store_wf) (simp_all add: chan_msg_def)
  then show ?thesis
    unfolding kv_s3 by (intro put_tx_store_wf) (simp_all add: chan_msg_def)
qed

section \<open>Order and bounds of a peek\<close>

lemma take_Suc_update: "i < length xs \<Longrightarrow> take (Suc i) (xs[i := v]) = take i xs @ [v]"
  by (simp add: take_Suc_conv_app_nth)

lemma peek_loop_sel:
  assumes "\<forall>(k, v) \<in> set es. k = key_of v \<and> length (DelayedChannel v) < 65536"
    and "idx \<le> length results"
    and "peek_loop peekTs ft fc pfx es results idx oldest = (results', idx', oldest', err)"
  shows "err = None \<and>
         (\<exists>sel. subseq sel (map snd es) \<and> list_all (peek_match peekTs ft fc) sel \<and>
                idx' = idx + length sel \<and> idx' \<le> length results \<and>
                results' = take idx results @ sel @ drop idx' results)"
  using assms
proof (induction es arbitrary: results idx oldest)
  case Nil
  then show ?case by simp
next
  case (Cons e es)
  obtain k v where e: "e = (k, v)" by (cases e)
  have kv: "k = key_of v" and lv: "length (DelayedChannel v) < 65536"
    using Cons.prems(1) e by auto
  have dk: "decodeDelayedMsgDBKey k =
              Inr (ucast (scast (DelayedType v) :: int64), DelayedTs v, ID v, DelayedChannel v)"
    unfolding kv key_of_def using lv by (rule decode_getKey)
  have rest: "\<forall>(k, v) \<in> set es. k = key_of v \<and> length (DelayedChannel v) < 65536"
    using Cons.prems(1) by simp
  note r = Cons.prems(3) [unfolded e]
  define o1 where "o1 = (if oldest = 0 \<and> ft = 1 \<and> fc \<noteq> [] then DelayedTs v else oldest)"
  have stop: "results' = results \<and> idx' = idx \<and> err = None \<Longrightarrow> ?case"
    using Cons.prems(2) by (intro conjI exI [of _ "[]"]) simp_all
  have skip: "peek_loop peekTs ft fc pfx es results idx o1 = (results', idx', oldest', err) \<Longrightarrow> ?case"
  proof -
    assume "peek_loop peekTs ft fc pfx es results idx o1 = (results', idx', oldest', err)"
    from Cons.IH [OF rest Cons.prems(2) this]
    obtain sel where "err = None" "subseq sel (map snd es)" "list_all (peek_match peekTs ft fc) sel"
      "idx' = idx + length sel" "idx' \<le> length results" "results' = take idx results @ sel @ drop idx' results"
      by blast
    then show ?case unfolding e by (intro conjI exI [of _ sel]) (simp_all add: list_emb_Cons)
  qed
  show ?case
  proof (cases "prefix pfx k")
    case False
    then show ?thesis using r by (intro stop) simp
  next
    case p: True
    have step: "peek_loop peekTs ft fc pfx ((k, v) # es) results idx oldest =
        (if peekTs <s DelayedTs v \<or> length results \<le> idx then (results, idx, o1, None)
         else if fc \<noteq> [] \<and> DelayedChannel v \<noteq> fc then peek_loop peekTs ft fc pfx es results idx o1
         else if 0 \<le>s ft \<and> ft \<noteq> scast (DelayedType v) then peek_loop peekTs ft fc pfx es results idx o1
         else peek_loop peekTs ft fc pfx es (results[idx := v]) (idx + 1) o1)"
      using p dk by (simp add: Let_def o1_def)
    note r' = r [unfolded step]
    show ?thesis
    proof (cases "peekTs <s DelayedTs v \<or> length results \<le> idx")
      case True
      then show ?thesis using r' by (intro stop) (simp split: if_splits)
    next
      case go: False
      show ?thesis
      proof (cases "(fc \<noteq> [] \<and> DelayedChannel v \<noteq> fc) \<or> (0 \<le>s ft \<and> ft \<noteq> scast (DelayedType v))")
        case True
        then show ?thesis using r' go by (intro skip) (simp split: if_splits)
      next
        case wr: False
        have i: "idx < length results" using go by simp
        have r1: "peek_loop peekTs ft fc pfx es (results[idx := v]) (idx + 1) o1 = (results', idx', oldest', err)"
          using r' go wr by (simp split: if_splits)
        have i1: "idx + 1 \<le> length (results[idx := v])" using i by simp
        from Cons.IH [OF rest i1 r1]
        obtain sel where s: "err = None" "subseq sel (map snd es)" "list_all (peek_match peekTs ft fc) sel"
          "idx' = idx + 1 + length sel" "idx' \<le> length results"
          "results' = take (idx + 1) (results[idx := v]) @ sel @ drop idx' (results[idx := v])"
          by auto
        have m: "peek_match peekTs ft fc v"
          using go wr by (auto simp: peek_match_def word_sless_alt word_sle_eq)
        have d: "drop idx' (results[idx := v]) = drop idx' results"
          using s(4) by (simp add: drop_update_cancel)
        have t: "take (idx + 1) (results[idx := v]) = take idx results @ [v]"
          using take_Suc_update [OF i] by simp
        have t': "take (Suc idx) (results[idx := v]) = take idx results @ [v]"
          using take_Suc_update [OF i] .
        show ?thesis unfolding e using s m
          by (intro conjI exI [of _ "v # sel"]) (simp_all add: d t')
      qed
    qed
  qed
qed


lemma sorted_wrt_subseq: "subseq xs ys \<Longrightarrow> sorted_wrt P ys \<Longrightarrow> sorted_wrt P xs"
proof (induction rule: list_emb.induct)
  case (list_emb_Nil ys)
  then show ?case by simp
next
  case (list_emb_Cons xs ys y)
  then show ?case by simp
next
  case (list_emb_Cons2 x y xs ys)
  have "set xs \<subseteq> set ys" using list_emb_Cons2.hyps(2) by (auto dest: list_emb_set)
  then show ?case using list_emb_Cons2 by auto
qed

lemma store_keys: "store_wf kv \<Longrightarrow> map fst (delayed_message kv) = map key_of (map snd (delayed_message kv))"
  unfolding store_wf_def by auto

text \<open>
  C5, as the source has it. On a store whose \<open>delayed_message\<close> bucket is well formed,
  \<open>PeekRecentTimeoutWithFilter(results, peekTs, filterType, filterChannel)\<close> returns no
  error and a count \<open>idx\<close> of at most \<open>len(results)\<close>; it writes the first \<open>idx\<close> slots of
  the buffer and leaves the others as they were. The messages written are taken from
  the live entries, in the order of the bucket; each is due by \<open>peekTs\<close> and passes the
  channel and type filters; and their keys are strictly ascending as byte strings. The
  key is the type in 16 bits, a dash, the length of the channel in 16 bits, the
  channel, and \<open>deliverAt\<close> and \<open>id\<close> as unsigned 64-bit big-endian numbers, so the order
  is by type, then by length of the channel, then by channel bytes, then by
  \<open>deliverAt\<close> and \<open>id\<close> read as unsigned numbers.
\<close>

theorem peek_ordering:
  assumes w: "store_wf (kvStore q)"
    and r: "PeekRecentTimeoutWithFilter q results peekTs ft fc = (q', results', idx, err)"
  shows "err = None \<and> idx \<le> length results \<and> length results' = length results \<and>
         drop idx results' = drop idx results \<and>
         subseq (take idx results') (map snd (delayed_message (kvStore q))) \<and>
         list_all (peek_match peekTs ft fc) (take idx results') \<and>
         sorted_wrt (<) (map key_of (take idx results'))"
proof (cases "results' = results \<and> idx = 0 \<and> err = None")
  case True
  then show ?thesis by simp
next
  case False
  define pfx where "pfx = (if 0 <s ft then getDelayedMsgDBPrefixKey ft fc else [])"
  let ?es = "seek pfx (delayed_message (kvStore q))"
  obtain rs i ol e where l: "peek_loop peekTs ft fc pfx ?es results 0 0 = (rs, i, ol, e)"
    by (metis prod_cases4)
  have rr: "results' = rs" "idx = i" "err = e"
    using r False l
    by (auto simp: PeekRecentTimeoutWithFilter_def Let_def pfx_def split: if_splits option.splits)
  have es: "\<forall>(k, v) \<in> set ?es. k = key_of v \<and> length (DelayedChannel v) < 65536"
    using w seek_sub(1) [of pfx "delayed_message (kvStore q)"] unfolding store_wf_def by blast
  from peek_loop_sel [OF es _ l]
  obtain sel where s: "e = None" "subseq sel (map snd ?es)" "list_all (peek_match peekTs ft fc) sel"
    "i = length sel" "i \<le> length results" "rs = sel @ drop i results"
    by auto
  have t: "take i rs = sel" using s(4,6) by simp
  have d: "drop i rs = drop i results" using s(4,6) by simp
  have n: "length rs = length results" using s(4,5,6) by simp
  have "subseq (map snd ?es) (map snd (delayed_message (kvStore q)))"
    unfolding seek_def by (intro subseq_map suffix_imp_subseq suffix_dropWhile)
  with s(2) have sub: "subseq sel (map snd (delayed_message (kvStore q)))"
    by (rule subseq_order.trans)
  have "sorted_wrt (<) (map key_of (map snd (delayed_message (kvStore q))))"
    using w store_keys [OF w] by (simp add: store_wf_def wf_bucket_def)
  then have so: "sorted_wrt (<) (map key_of sel)"
    using subseq_map [OF sub, of key_of] by (rule sorted_wrt_subseq [rotated])
  show ?thesis unfolding rr t using s(1,3,5) d n sub so by simp
qed


lemma peek_loop_step:
  assumes "length (DelayedChannel v) < 65536" and "prefix pfx (key_of v)"
  shows "peek_loop peekTs ft fc pfx ((key_of v, v) # es) results idx oldest =
     (if peekTs <s DelayedTs v \<or> length results \<le> idx
      then (results, idx, if oldest = 0 \<and> ft = 1 \<and> fc \<noteq> [] then DelayedTs v else oldest, None)
      else if (fc \<noteq> [] \<and> DelayedChannel v \<noteq> fc) \<or> (0 \<le>s ft \<and> ft \<noteq> scast (DelayedType v))
      then peek_loop peekTs ft fc pfx es results idx
             (if oldest = 0 \<and> ft = 1 \<and> fc \<noteq> [] then DelayedTs v else oldest)
      else peek_loop peekTs ft fc pfx es (results[idx := v]) (idx + 1)
             (if oldest = 0 \<and> ft = 1 \<and> fc \<noteq> [] then DelayedTs v else oldest))"
proof -
  have "decodeDelayedMsgDBKey (key_of v) =
          Inr (ucast (scast (DelayedType v) :: int64), DelayedTs v, ID v, DelayedChannel v)"
    unfolding key_of_def using assms(1) by (rule decode_getKey)
  then show ?thesis using assms(2) by (simp add: Let_def)
qed

lemma peek_s3:
  "PeekRecentTimeoutWithFilter s_three [chan_msg 0 0 0, chan_msg 0 0 0, chan_msg 0 0 0] 300 1 [99] =
     (s_three\<lparr>oldestChannelDelayedTs := (oldestChannelDelayedTs s_three)([99] \<mapsto> 100)\<rparr>,
      [chan_msg 2 6 100, chan_msg 1 5 200, chan_msg 3 7 200], 3, None)"
proof -
  have p: "getDelayedMsgDBPrefixKey 1 [99] = [0, 1, 45, 0, 1, 99]" by (rule chan_key(3))
  have l: "\<And>i orig t. length (DelayedChannel (chan_msg i orig t)) < 65536" by (simp add: chan_msg_def)
  have x: "\<And>i orig t. prefix [0, 1, 45, 0, 1, 99] (key_of (chan_msg i orig t))"
    by (simp add: chan_key_bytes)
  have s: "seek [0, 1, 45, 0, 1, 99] (delayed_message (kvStore s_three)) =
             [(key_of (chan_msg 2 6 100), chan_msg 2 6 100), (key_of (chan_msg 1 5 200), chan_msg 1 5 200),
              (key_of (chan_msg 3 7 200), chan_msg 3 7 200)]"
    unfolding primary_s3 seek_def by (simp add: chan_key_bytes)
  have f: "\<And>i orig t. DelayedTs (chan_msg i orig t) = t" "\<And>i orig t. DelayedChannel (chan_msg i orig t) = [99]"
    "\<And>i orig t. DelayedType (chan_msg i orig t) = 1"
    by (simp_all add: chan_msg_def)
  show ?thesis
    unfolding PeekRecentTimeoutWithFilter_def hint_s3 p
    by (simp add: Let_def s peek_loop_step [OF l x] f word_sless_alt word_sle_eq
        del: peek_loop.simps(2))
qed

text \<open>
  The witness is the ordering scenario through the engine's own puts: \<open>m1\<close> (due at
  200), \<open>m2\<close> (due at 100) and \<open>m3\<close> (due at 200) of channel \<open>c\<close> are put in this order on a
  fresh engine, which gives them the identifiers 1, 2 and 3. A peek for channel \<open>c\<close>
  with deadline 300 and three slots returns \<open>m2\<close>, \<open>m1\<close>, \<open>m3\<close>.
\<close>

theorem peek_ordering_witness:
  "store_wf (kvStore s_three) \<and>
   PeekRecentTimeoutWithFilter s_three [chan_msg 0 0 0, chan_msg 0 0 0, chan_msg 0 0 0] 300 1 [99] =
     (s_three\<lparr>oldestChannelDelayedTs := (oldestChannelDelayedTs s_three)([99] \<mapsto> 100)\<rparr>,
      [chan_msg 2 6 100, chan_msg 1 5 200, chan_msg 3 7 200], 3, None) \<and>
   subseq [chan_msg 2 6 100, chan_msg 1 5 200, chan_msg 3 7 200]
     (map snd (delayed_message (kvStore s_three))) \<and>
   list_all (peek_match 300 1 [99]) [chan_msg 2 6 100, chan_msg 1 5 200, chan_msg 3 7 200] \<and>
   sorted_wrt (<) (map key_of [chan_msg 2 6 100, chan_msg 1 5 200, chan_msg 3 7 200])"
proof -
  have t: "take 3 [chan_msg 2 6 100, chan_msg 1 5 200, chan_msg 3 7 200] =
             [chan_msg 2 6 100, chan_msg 1 5 200, chan_msg 3 7 200]"
    by simp
  note T = peek_ordering [OF wf_s3 peek_s3, unfolded t]
  have a: "subseq [chan_msg 2 6 100, chan_msg 1 5 200, chan_msg 3 7 200]
             (map snd (delayed_message (kvStore s_three)))"
    using T by (elim conjE)
  have b: "list_all (peek_match 300 1 [99]) [chan_msg 2 6 100, chan_msg 1 5 200, chan_msg 3 7 200]"
    using T by (elim conjE)
  have c: "sorted_wrt (<) (map key_of [chan_msg 2 6 100, chan_msg 1 5 200, chan_msg 3 7 200])"
    using T by (elim conjE)
  show ?thesis by (intro conjI wf_s3 peek_s3 a b c)
qed

lemma kv_aa: "kvStore q_aa = fst (put_tx (\<lambda>k. True) (msg_on [97, 97] 1 5 100) 44 empty_store)"
  by (simp add: q_aa_def eval_defs msg_on_def)

lemma kv_ab: "kvStore q_ab = fst (put_tx (\<lambda>k. True) (msg_on [98] 2 6 100) 88 (kvStore q_aa))"
  by (simp add: q_ab_def q_aa_def eval_defs msg_on_def)

lemma put_ab_ok:
  "snd (snd (snd (snd (snd (PutDelayMessage example_codec ok_env fresh_queue (msg_on [97, 97] 0 5 100)))))) = None"
  "snd (snd (snd (snd (snd (PutDelayMessage example_codec ok_env q_aa (msg_on [98] 0 6 100)))))) = None"
  by (simp_all add: q_aa_def eval_defs msg_on_def)

lemma key_on_bytes:
  "key_of (msg_on [97, 97] i orig t) = [0, 1, 45, 0, 2, 97, 97] @ PutUint64 t @ PutUint64 i"
  "key_of (msg_on [98] i orig t) = [0, 1, 45, 0, 1, 98] @ PutUint64 t @ PutUint64 i"
  by (simp_all add: key_of_def msg_on_def getDelayedMsgDBKey_def PutUint16_def be_bytes_numeral)

lemma key_ab_less: "key_of (msg_on [98] 2 6 100) < key_of (msg_on [97, 97] 1 5 100)"
  by (simp add: key_on_bytes)

lemma primary_aa:
  "delayed_message (kvStore q_aa) = [(key_of (msg_on [97, 97] 1 5 100), msg_on [97, 97] 1 5 100)]"
  unfolding kv_aa put_tx_primary by (simp add: empty_store_def bget_def)

lemma primary_ab:
  "delayed_message (kvStore q_ab) =
     [(key_of (msg_on [98] 2 6 100), msg_on [98] 2 6 100),
      (key_of (msg_on [97, 97] 1 5 100), msg_on [97, 97] 1 5 100)]"
  unfolding kv_ab put_tx_primary primary_aa using key_ab_less
  by (simp add: bget_def)


lemma peek_ab:
  "PeekRecentTimeoutWithFilter q_ab [chan_msg 0 0 0, chan_msg 0 0 0] 300 (- 1) [] =
     (q_ab, [msg_on [98] 2 6 100, msg_on [97, 97] 1 5 100], 2, None)"
proof -
  have l: "\<And>ch i orig t. length ch < 65536 \<Longrightarrow> length (DelayedChannel (msg_on ch i orig t)) < 65536"
    by (simp add: msg_on_def)
  have x: "\<And>v. prefix [] (key_of v)" by simp
  have f: "\<And>ch i orig t. DelayedTs (msg_on ch i orig t) = t"
    by (simp add: msg_on_def)
  have n: "(- 1 :: int64) \<noteq> 1" by simp
  show ?thesis
    unfolding PeekRecentTimeoutWithFilter_def primary_ab seek_def
    using n
    by (simp add: Let_def peek_loop_step [OF l x] f word_sless_alt word_sle_eq
        del: peek_loop.simps(2))
qed

lemma put_with_id:
  "PutDelayMessage example_codec ok_env fresh_queue (chan_msg 1 5 200) =
     (fresh_queue, 0, 0, 0, None, Some ErrInvalidMessageID)"
  by (simp add: PutDelayMessage_def fresh_queue_def chan_msg_def word_sless_alt)

text \<open>
  The scenario of C5 and the order it states fail on the code. \<open>PutDelayMessage\<close> refuses a
  message that carries an identifier, and gives the three messages of the scenario the
  identifiers 1, 2 and 3, so that the peek returns \<open>m2\<close>, \<open>m1\<close>, \<open>m3\<close> and not \<open>m2\<close>, \<open>m3\<close>,
  \<open>m1\<close>. And the order is not by channel bytes: after a put for channel \<open>aa\<close> and one
  for channel \<open>b\<close>, both of type 1 and due at 100, a peek over all types and channels
  (\<open>filterType = -1\<close>, no channel, as \<open>PeekAll\<close> calls it) returns the message of channel
  \<open>b\<close> first, although \<open>aa\<close> is the smaller byte string: the key has the length of the
  channel before its bytes.
\<close>

theorem peek_order_counterexample:
  "PutDelayMessage example_codec ok_env fresh_queue (chan_msg 1 5 200) =
     (fresh_queue, 0, 0, 0, None, Some ErrInvalidMessageID) \<and>
   snd (snd (snd (snd (snd (PutDelayMessage example_codec ok_env fresh_queue (chan_msg 0 5 200)))))) = None \<and>
   snd (snd (snd (snd (snd (PutDelayMessage example_codec ok_env s_one (chan_msg 0 6 100)))))) = None \<and>
   snd (snd (snd (snd (snd (PutDelayMessage example_codec ok_env s_two (chan_msg 0 7 200)))))) = None \<and>
   PeekRecentTimeoutWithFilter s_three [chan_msg 0 0 0, chan_msg 0 0 0, chan_msg 0 0 0] 300 1 [99] =
     (s_three\<lparr>oldestChannelDelayedTs := (oldestChannelDelayedTs s_three)([99] \<mapsto> 100)\<rparr>,
      [chan_msg 2 6 100, chan_msg 1 5 200, chan_msg 3 7 200], 3, None) \<and>
   snd (snd (snd (snd (snd (PutDelayMessage example_codec ok_env fresh_queue (msg_on [97, 97] 0 5 100)))))) = None \<and>
   snd (snd (snd (snd (snd (PutDelayMessage example_codec ok_env q_aa (msg_on [98] 0 6 100)))))) = None \<and>
   PeekRecentTimeoutWithFilter q_ab [chan_msg 0 0 0, chan_msg 0 0 0] 300 (- 1) [] =
     (q_ab, [msg_on [98] 2 6 100, msg_on [97, 97] 1 5 100], 2, None) \<and>
   DelayedType (msg_on [98] 2 6 100) = DelayedType (msg_on [97, 97] 1 5 100) \<and>
   DelayedChannel (msg_on [97, 97] 1 5 100) < DelayedChannel (msg_on [98] 2 6 100)"
proof -
  have t: "DelayedType (msg_on [98] 2 6 100) = DelayedType (msg_on [97, 97] 1 5 100)"
    and c: "DelayedChannel (msg_on [97, 97] 1 5 100) < DelayedChannel (msg_on [98] 2 6 100)"
    by (simp_all add: msg_on_def)
  show ?thesis by (intro conjI put_with_id put_s_ok peek_s3 put_ab_ok peek_ab t c)
qed

section \<open>Properties of the put entry points\<close>

text \<open>
  C6. On an engine that is not exiting, for a message with \<open>ID = 0\<close>,
  \<open>PutDelayMessage\<close> returns the invalid-delayed-message error exactly when the message
  is \<open>ChannelDelayed\<close> with \<open>origId \<le> 0\<close>, an empty channel or \<open>deliverAt \<le> 0\<close>, or
  \<open>PubDelayed\<close> with \<open>deliverAt \<le> 0\<close>, or of none of the three types; when it returns
  that error the engine is unchanged. A \<open>TransactionDelayed\<close> message never gets it.
\<close>

theorem PutDelayMessage_validity:
  assumes "\<not> q_exitFlag q" and "ID m = 0"
    and "PutDelayMessage cd env q m = (q', ident, off, wb, dend, err)"
  shows "((err = Some ErrInvalidDelayedMessage \<and> q' = q) \<longleftrightarrow>
          (DelayedType m = 1 \<and> (DelayedOrigID m \<le>s 0 \<or> DelayedChannel m = [] \<or> DelayedTs m \<le>s 0) \<or>
           DelayedType m = 2 \<and> DelayedTs m \<le>s 0 \<or>
           DelayedType m \<noteq> 1 \<and> DelayedType m \<noteq> 2 \<and> DelayedType m \<noteq> 3)) \<and>
         (err = Some ErrInvalidDelayedMessage \<longrightarrow> q' = q) \<and>
         (DelayedType m = 3 \<longrightarrow> err \<noteq> Some ErrInvalidDelayedMessage)"
proof -
  have inv: "(\<not> IsValidDelayedMessage m) =
          (DelayedType m = 1 \<and> (DelayedOrigID m \<le>s 0 \<or> DelayedChannel m = [] \<or> DelayedTs m \<le>s 0) \<or>
           DelayedType m = 2 \<and> DelayedTs m \<le>s 0 \<or>
           DelayedType m \<noteq> 1 \<and> DelayedType m \<noteq> 2 \<and> DelayedType m \<noteq> 3)"
    by (auto simp: IsValidDelayedMessage_def word_sless_alt word_sle_eq)
  show ?thesis
  proof (cases "IsValidDelayedMessage m")
    case False
    then show ?thesis using assms inv by (auto simp: PutDelayMessage_def IsValidDelayedMessage_def)
  next
    case True
    obtain q1 i1 off1 wb1 dend1 err1 where p: "put cd env q m None 0 = (q1, i1, off1, wb1, dend1, err1)"
      by (metis prod_cases3)
    have "err1 \<noteq> Some ErrInvalidDelayedMessage"
      using put_None_err [of cd env q m 0 q1 i1 off1 wb1 dend1] p by auto
    then show ?thesis using True assms inv p by (auto simp: PutDelayMessage_def)
  qed
qed

text \<open>The witness: a \<open>ChannelDelayed\<close> message with \<open>origId = 0\<close> on a fresh engine.\<close>

lemma invalid_put_example:
  "PutDelayMessage example_codec ok_env fresh_queue (chan_msg 0 0 100) =
     (fresh_queue, 0, 0, 0, None, Some ErrInvalidDelayedMessage)"
  by (simp add: PutDelayMessage_def fresh_queue_def chan_msg_def IsValidDelayedMessage_def)

theorem PutDelayMessage_validity_witness:
  "\<not> q_exitFlag fresh_queue \<and> ID (chan_msg 0 0 100) = 0 \<and>
   PutDelayMessage example_codec ok_env fresh_queue (chan_msg 0 0 100) =
     (fresh_queue, 0, 0, 0, None, Some ErrInvalidDelayedMessage) \<and>
   DelayedType (chan_msg 0 0 100) = 1 \<and> DelayedOrigID (chan_msg 0 0 100) \<le>s 0"
proof -
  have a: "\<not> q_exitFlag fresh_queue" by (simp add: fresh_queue_def)
  have b: "ID (chan_msg 0 0 100) = 0" by (simp add: chan_msg_def)
  show ?thesis
    using PutDelayMessage_validity [OF a b invalid_put_example] a b invalid_put_example
    by (simp add: chan_msg_def)
qed

text \<open>An engine that has begun to shut down, and a follower whose log ends at offset 100.\<close>

definition exiting_queue :: DelayQueue where
  "exiting_queue = fresh_queue\<lparr>q_exitFlag := True\<rparr>"

definition follower_queue :: DelayQueue where
  "follower_queue =
     fresh_queue\<lparr>backend := fresh_writer\<lparr>diskWriteEnd :=
       \<lparr>FileNum = 0, Pos = 100, virtualEnd = 100, totalMsgCnt = 2\<rparr>\<rparr>\<rparr>"

definition exiting_follower :: DelayQueue where
  "exiting_follower = follower_queue\<lparr>q_exitFlag := True\<rparr>"

text \<open>
  C9, as the source has it. On an engine that is not exiting, \<open>PutDelayMessage\<close> of a
  message with \<open>ID > 0\<close> returns \<open>ErrInvalidMessageID\<close> and the engine (log and index
  store) is unchanged. The exit flag is tested first: an exiting engine returns the
  exiting error instead.
\<close>

theorem PutDelayMessage_rejects_id:
  assumes "\<not> q_exitFlag q" and "0 <s ID m"
  shows "PutDelayMessage cd env q m = (q, 0, 0, 0, None, Some ErrInvalidMessageID)"
  using assms by (simp add: PutDelayMessage_def)

theorem PutDelayMessage_rejects_id_witness:
  "\<not> q_exitFlag fresh_queue \<and> 0 <s ID (chan_msg 5 5 100) \<and>
   PutDelayMessage example_codec ok_env fresh_queue (chan_msg 5 5 100) =
     (fresh_queue, 0, 0, 0, None, Some ErrInvalidMessageID)"
proof -
  have a: "\<not> q_exitFlag fresh_queue" by (simp add: fresh_queue_def)
  have b: "0 <s ID (chan_msg 5 5 100)" by (simp add: chan_msg_def word_sless_alt)
  show ?thesis using PutDelayMessage_rejects_id [OF a b] a b by simp
qed

theorem PutDelayMessage_id_exiting_counterexample:
  "0 <s ID (chan_msg 5 5 100) \<and>
   PutDelayMessage example_codec ok_env exiting_queue (chan_msg 5 5 100) =
     (exiting_queue, 0, 0, 0, None, Some ErrExiting)"
  by (simp add: PutDelayMessage_def exiting_queue_def fresh_queue_def chan_msg_def word_sless_alt)

text \<open>
  C2, as the source has it. On an engine that is not exiting, \<open>PutRawDataOnReplica\<close> and
  \<open>PutMessageOnReplica\<close> called with an offset other than the write end's virtual offset
  return \<open>ErrWriteOffsetMismatch\<close> and leave the whole engine unchanged: the log's write
  end, the \<open>synced_offset\<close> cell and the rest of the index store.
\<close>

theorem replica_put_offset_mismatch:
  assumes "\<not> q_exitFlag q" and "offset \<noteq> virtualEnd (diskWriteEnd (backend q))"
  shows "PutRawDataOnReplica cd env q rawData offset checkSize msgNum =
           (q, None, Some ErrWriteOffsetMismatch) \<and>
         PutMessageOnReplica cd env q m offset checkSize = (q, None, Some ErrWriteOffsetMismatch)"
  using assms by (auto simp: PutRawDataOnReplica_def PutMessageOnReplica_def Let_def)

theorem replica_put_offset_mismatch_witness:
  "\<not> q_exitFlag follower_queue \<and> (150 :: int64) \<noteq> virtualEnd (diskWriteEnd (backend follower_queue)) \<and>
   PutRawDataOnReplica example_codec ok_env follower_queue (Some [0, 0, 0, 1, 7]) 150 0 1 =
     (follower_queue, None, Some ErrWriteOffsetMismatch) \<and>
   PutMessageOnReplica example_codec ok_env follower_queue (chan_msg 5 5 100) 150 0 =
     (follower_queue, None, Some ErrWriteOffsetMismatch)"
proof -
  have a: "\<not> q_exitFlag follower_queue" by (simp add: follower_queue_def fresh_queue_def)
  have b: "(150 :: int64) \<noteq> virtualEnd (diskWriteEnd (backend follower_queue))"
    by (simp add: follower_queue_def fresh_queue_def fresh_writer_def)
  show ?thesis using replica_put_offset_mismatch [OF a b] a b by simp
qed

theorem replica_put_mismatch_exiting_counterexample:
  "(150 :: int64) \<noteq> virtualEnd (diskWriteEnd (backend exiting_follower)) \<and>
   PutRawDataOnReplica example_codec ok_env exiting_follower (Some [0, 0, 0, 1, 7]) 150 0 1 =
     (exiting_follower, None, Some ErrExiting) \<and>
   PutMessageOnReplica example_codec ok_env exiting_follower (chan_msg 5 5 100) 150 0 =
     (exiting_follower, None, Some ErrExiting)"
  by (simp add: PutRawDataOnReplica_def PutMessageOnReplica_def exiting_follower_def
      follower_queue_def fresh_queue_def fresh_writer_def)

text \<open>
  C10, as the source has it. On an engine that is not exiting, \<open>PutRawDataOnReplica\<close>
  called at the write end's offset with \<open>msgNum \<noteq> 1\<close> returns the error "delayed raw
  message number must be 1." and leaves the engine unchanged.
\<close>

theorem raw_put_msgNum:
  assumes "\<not> q_exitFlag q" and "offset = virtualEnd (diskWriteEnd (backend q))" and "msgNum \<noteq> 1"
  shows "PutRawDataOnReplica cd env q rawData offset checkSize msgNum = (q, None, Some ErrRawMsgNumber)"
  using assms by (simp add: PutRawDataOnReplica_def Let_def)

theorem raw_put_msgNum_witness:
  "\<not> q_exitFlag follower_queue \<and> (100 :: int64) = virtualEnd (diskWriteEnd (backend follower_queue)) \<and>
   (2 :: int32) \<noteq> 1 \<and>
   PutRawDataOnReplica example_codec ok_env follower_queue (Some [0, 0, 0, 1, 7]) 100 0 2 =
     (follower_queue, None, Some ErrRawMsgNumber)"
proof -
  have a: "\<not> q_exitFlag follower_queue" by (simp add: follower_queue_def fresh_queue_def)
  have b: "(100 :: int64) = virtualEnd (diskWriteEnd (backend follower_queue))"
    by (simp add: follower_queue_def fresh_queue_def fresh_writer_def)
  have c: "(2 :: int32) \<noteq> 1" by simp
  show ?thesis using raw_put_msgNum [OF a b c] a b c by simp
qed

theorem raw_put_msgNum_exiting_counterexample:
  "(100 :: int64) = virtualEnd (diskWriteEnd (backend exiting_follower)) \<and> (2 :: int32) \<noteq> 1 \<and>
   PutRawDataOnReplica example_codec ok_env exiting_follower (Some [0, 0, 0, 1, 7]) 100 0 2 =
     (exiting_follower, None, Some ErrExiting)"
  by (simp add: PutRawDataOnReplica_def exiting_follower_def
      follower_queue_def fresh_queue_def fresh_writer_def)

end
